theory Spec2Isabelle
  imports Main "HOL-Library.Signed_Division"
begin

section \<open>Mt3620DiningPhilosophers/main.c: dining philosophers on POSIX threads\<close>

text \<open>
  The program has six threads: \<open>main\<close> and five philosophers running \<open>PhilPhunction\<close>.
  Each thread is modelled as a sequential machine that issues one call (or one access to
  memory another thread can see) at a time and is resumed with the value that call returns.
  A thread can be run alone against a scripted list of return values, which covers every
  behaviour of the library and of the other threads, or together with the other philosophers
  against the five mutexes.

  The C \<open>int\<close> \<open>platesCounter\<close> is a 32-bit integer: its increment is modelled with the
  wrap-around of the compiled code (\<open>add32\<close>; C leaves the overflow undefined).
  \<open>triesLeft\<close> starts at 2 on every attempt and falls by one per failed attempt, and is
  modelled as an unbounded integer. A pointer \<open>&forks[k]\<close> is the index \<open>k\<close>.
\<close>

subsection \<open>Data\<close>

text \<open>\<open>struct philData\<close> (the \<open>pthread_t\<close> handle is not read by the program and is left out).\<close>

record philData =
  forkLeft :: nat
  forkRight :: nat
  name :: string
  gpio :: int
  platesCounter :: int
  isEating :: int
  fail :: int



definition add32 :: "int \<Rightarrow> int \<Rightarrow> int" where
  "add32 a b = (a + b + 2147483648) mod 4294967296 - 2147483648"

datatype gpio_value = GPIO_Value_Low | GPIO_Value_High

text \<open>The format strings of the \<open>Log_Debug\<close> calls, with their arguments.\<close>

datatype message =
    Starting
  | Failed_mutexes
  | Failed_thread string
  | Hello
  | Flag string
  | Separator
  | Plates int
  | Closing
  | Exiting
  | Is_thinking string
  | Is_hungry string
  | Takes_fork string string
  | Switching string
  | Is_eating string

text \<open>
  The calls a thread makes, and its accesses to the memory it shares with other threads.
  \<open>Read_gpio\<close> is the philosopher's read of \<open>phil->gpio\<close> on lines 84 and 91: \<open>main\<close>
  stores that field on line 142, after line 141 has created the thread, so what the read
  returns is not fixed by the thread. \<open>Pthread_join\<close> and \<open>Mutex_destroy\<close> belong to the
  pthread interface.
\<close>

datatype call =
    Read_terminationRequired
  | Log_Debug message
  | Rand
  | Nanosleep int
  | Mutex_init nat
  | Mutex_lock nat
  | Mutex_trylock nat
  | Mutex_unlock nat
  | Mutex_destroy nat
  | Pthread_create nat
  | Pthread_join nat
  | Sigaction
  | GPIO_OpenAsOutput nat
  | GPIO_SetValue int gpio_value
  | Write_isEating int
  | Write_platesCounter int
  | Read_isEating nat
  | Read_platesCounter nat
  | Read_gpio

type_synonym event = "call \<times> int"

subsection \<open>PhilPhunction\<close>

text \<open>The program points of \<open>PhilPhunction\<close>, one per call, named after what the line does.\<close>

datatype pc =
    While_check       \<comment> \<open>line 53: \<open>while (!terminationRequired)\<close>\<close>
  | Log_thinking      \<comment> \<open>line 54\<close>
  | Rand_think        \<comment> \<open>line 55\<close>
  | Sleep_think       \<comment> \<open>line 56\<close>
  | Log_hungry        \<comment> \<open>line 60\<close>
  | Lock_primary      \<comment> \<open>line 65: \<open>failed = pthread_mutex_lock(forkLeft)\<close>\<close>
  | Log_takes_first   \<comment> \<open>line 66\<close>
  | Attempt_secondary \<comment> \<open>lines 67-68\<close>
  | Log_takes_second  \<comment> \<open>line 69\<close>
  | Log_switching     \<comment> \<open>line 71\<close>
  | Unlock_primary    \<comment> \<open>line 72, then lines 73-77\<close>
  | Do_while_check    \<comment> \<open>line 79: \<open>while (failed && !terminationRequired)\<close>\<close>
  | Set_eating        \<comment> \<open>line 82\<close>
  | Inc_plates        \<comment> \<open>line 83\<close>
  | Load_gpio_busy    \<comment> \<open>line 84, the read of \<open>phil->gpio\<close>\<close>
  | Gpio_busy         \<comment> \<open>line 84, the call\<close>
  | Log_eating        \<comment> \<open>line 85\<close>
  | Rand_eat          \<comment> \<open>line 86\<close>
  | Sleep_eat         \<comment> \<open>line 87\<close>
  | Unlock_right      \<comment> \<open>line 88\<close>
  | Unlock_left       \<comment> \<open>line 89\<close>
  | Clear_eating      \<comment> \<open>line 90\<close>
  | Load_gpio_idle    \<comment> \<open>line 91, the read of \<open>phil->gpio\<close>\<close>
  | Gpio_idle         \<comment> \<open>line 91, the call\<close>
  | Returned          \<comment> \<open>line 94\<close>

text \<open>
  The thread's state: the \<open>Philosopher\<close> it was given and its local variables. The locals
  \<open>forkLeft\<close> and \<open>forkRight\<close> are primed, the fields of the struct have the plain names.
  \<open>loaded_gpio\<close> is the value of \<open>phil->gpio\<close> just read for the call of line 84 or 91.
  Of the struct the thread reads \<open>name\<close>, \<open>forkLeft\<close> and \<open>forkRight\<close>, stored before it
  was created, and the two fields it alone writes, \<open>platesCounter\<close> and \<open>isEating\<close>.
\<close>

record worker =
  phil :: philData
  pc :: pc
  failed :: int
  triesLeft :: int
  swapped :: int
  forkLeft' :: nat
  forkRight' :: nat
  sleepRandom :: int
  loaded_gpio :: int

text \<open>The call made at each program point.\<close>

definition call_of :: "worker \<Rightarrow> call option" where
  "call_of t =
    (case pc t of
       While_check \<Rightarrow> Some Read_terminationRequired
     | Log_thinking \<Rightarrow> Some (Log_Debug (Is_thinking (name (phil t))))
     | Rand_think \<Rightarrow> Some Rand
     | Sleep_think \<Rightarrow> Some (Nanosleep (sleepRandom t))
     | Log_hungry \<Rightarrow> Some (Log_Debug (Is_hungry (name (phil t))))
     | Lock_primary \<Rightarrow> Some (Mutex_lock (forkLeft' t))
     | Log_takes_first \<Rightarrow>
         Some (Log_Debug (Takes_fork (name (phil t)) (if swapped t = 0 then ''left'' else ''right'')))
     | Attempt_secondary \<Rightarrow>
         Some (if triesLeft t > 0 then Mutex_trylock (forkRight' t) else Mutex_lock (forkRight' t))
     | Log_takes_second \<Rightarrow>
         Some (Log_Debug (Takes_fork (name (phil t)) (if swapped t = 1 then ''left'' else ''right'')))
     | Log_switching \<Rightarrow> Some (Log_Debug (Switching (name (phil t))))
     | Unlock_primary \<Rightarrow> Some (Mutex_unlock (forkLeft' t))
     | Do_while_check \<Rightarrow> Some Read_terminationRequired
     | Set_eating \<Rightarrow> Some (Write_isEating 1)
     | Inc_plates \<Rightarrow> Some (Write_platesCounter (add32 (platesCounter (phil t)) 1))
     | Load_gpio_busy \<Rightarrow> Some Read_gpio
     | Gpio_busy \<Rightarrow> Some (GPIO_SetValue (loaded_gpio t) GPIO_Value_Low)
     | Log_eating \<Rightarrow> Some (Log_Debug (Is_eating (name (phil t))))
     | Rand_eat \<Rightarrow> Some Rand
     | Sleep_eat \<Rightarrow> Some (Nanosleep (sleepRandom t))
     | Unlock_right \<Rightarrow> Some (Mutex_unlock (forkRight' t))
     | Unlock_left \<Rightarrow> Some (Mutex_unlock (forkLeft' t))
     | Clear_eating \<Rightarrow> Some (Write_isEating 0)
     | Load_gpio_idle \<Rightarrow> Some Read_gpio
     | Gpio_idle \<Rightarrow> Some (GPIO_SetValue (loaded_gpio t) GPIO_Value_High)
     | Returned \<Rightarrow> None)"

text \<open>
  The thread resumed with the value \<open>r\<close> its call returned. The values of \<open>Log_Debug\<close>,
  \<open>nanosleep\<close>, \<open>pthread_mutex_unlock\<close> and \<open>GPIO_SetValue\<close> are not used by the source.
  \<open>rand() % 8\<close> is C's truncating remainder, \<open>smod\<close>.
\<close>

definition resume :: "worker \<Rightarrow> int \<Rightarrow> worker" where
  "resume t r =
    (case pc t of
       While_check \<Rightarrow> if r \<noteq> 0 then t\<lparr>pc := Returned\<rparr> else t\<lparr>pc := Log_thinking\<rparr>
     | Log_thinking \<Rightarrow> t\<lparr>pc := Rand_think\<rparr>
     | Rand_think \<Rightarrow> t\<lparr>sleepRandom := 1 + r smod 8, pc := Sleep_think\<rparr>
     | Sleep_think \<Rightarrow>
         t\<lparr>forkLeft' := forkLeft (phil t), forkRight' := forkRight (phil t), pc := Log_hungry\<rparr>
     | Log_hungry \<Rightarrow> t\<lparr>triesLeft := 2, pc := Lock_primary\<rparr>
     | Lock_primary \<Rightarrow> t\<lparr>failed := r, pc := Log_takes_first\<rparr>
     | Log_takes_first \<Rightarrow> t\<lparr>pc := Attempt_secondary\<rparr>
     | Attempt_secondary \<Rightarrow> t\<lparr>failed := r, pc := Log_takes_second\<rparr>
     | Log_takes_second \<Rightarrow>
         if failed t \<noteq> 0 then t\<lparr>pc := Log_switching\<rparr> else t\<lparr>pc := Set_eating\<rparr>
     | Log_switching \<Rightarrow> t\<lparr>pc := Unlock_primary\<rparr>
     | Unlock_primary \<Rightarrow>
         t\<lparr>forkLeft' := forkRight' t, forkRight' := forkLeft' t,
           triesLeft := triesLeft t - 1,
           swapped := (if swapped t = 0 then 1 else 0),
           pc := Do_while_check\<rparr>
     | Do_while_check \<Rightarrow>
         if failed t \<noteq> 0 \<and> r = 0 then t\<lparr>pc := Lock_primary\<rparr>
         else if failed t = 0 then t\<lparr>pc := Set_eating\<rparr>
         else t\<lparr>pc := While_check\<rparr>
     | Set_eating \<Rightarrow> t\<lparr>phil := (phil t)\<lparr>isEating := 1\<rparr>, pc := Inc_plates\<rparr>
     | Inc_plates \<Rightarrow>
         t\<lparr>phil := (phil t)\<lparr>platesCounter := add32 (platesCounter (phil t)) 1\<rparr>,
           pc := Load_gpio_busy\<rparr>
     | Load_gpio_busy \<Rightarrow> t\<lparr>loaded_gpio := r, pc := Gpio_busy\<rparr>
     | Gpio_busy \<Rightarrow> t\<lparr>pc := Log_eating\<rparr>
     | Log_eating \<Rightarrow> t\<lparr>pc := Rand_eat\<rparr>
     | Rand_eat \<Rightarrow> t\<lparr>sleepRandom := 1 + r smod 8, pc := Sleep_eat\<rparr>
     | Sleep_eat \<Rightarrow> t\<lparr>pc := Unlock_right\<rparr>
     | Unlock_right \<Rightarrow> t\<lparr>pc := Unlock_left\<rparr>
     | Unlock_left \<Rightarrow> t\<lparr>pc := Clear_eating\<rparr>
     | Clear_eating \<Rightarrow> t\<lparr>phil := (phil t)\<lparr>isEating := 0\<rparr>, pc := Load_gpio_idle\<rparr>
     | Load_gpio_idle \<Rightarrow> t\<lparr>loaded_gpio := r, pc := Gpio_idle\<rparr>
     | Gpio_idle \<Rightarrow> t\<lparr>pc := While_check\<rparr>
     | Returned \<Rightarrow> t)"

text \<open>
  The thread as \<open>pthread_create\<close> starts it. \<open>swapped\<close> is initialised to 0; the other
  locals are uninitialised in C and each is assigned before it is read
  (lines 55, 58, 59, 61, 65, 84); they are given 0 here.
\<close>

definition PhilPhunction :: "philData \<Rightarrow> worker" where
  "PhilPhunction p =
    \<lparr>phil = p, pc = While_check, failed = 0, triesLeft = 0, swapped = 0,
     forkLeft' = 0, forkRight' = 0, sleepRandom = 0, loaded_gpio = 0\<rparr>"

text \<open>Running the thread against a script of return values: the events, and the state reached.\<close>

fun run :: "worker \<Rightarrow> int list \<Rightarrow> event list" where
  "run t [] = []"
| "run t (r # rs) =
    (case call_of t of None \<Rightarrow> [] | Some c \<Rightarrow> (c, r) # run (resume t r) rs)"

fun exec :: "worker \<Rightarrow> int list \<Rightarrow> worker" where
  "exec t [] = t"
| "exec t (r # rs) = exec (resume t r) rs"


subsection \<open>The acquisition loop and what it is measured against\<close>

text \<open>The \<open>do ... while\<close> loop of lines 62-79: one pass through it is one attempt.\<close>

definition in_loop :: "worker \<Rightarrow> bool" where
  "in_loop t =
    (case pc t of
       Lock_primary \<Rightarrow> True | Log_takes_first \<Rightarrow> True | Attempt_secondary \<Rightarrow> True
     | Log_takes_second \<Rightarrow> True | Log_switching \<Rightarrow> True | Unlock_primary \<Rightarrow> True
     | Do_while_check \<Rightarrow> True | _ \<Rightarrow> False)"

text \<open>The thread run until it leaves the loop: the events inside the loop, and the state reached.\<close>

fun loop_run :: "worker \<Rightarrow> int list \<Rightarrow> event list" where
  "loop_run t [] = []"
| "loop_run t (r # rs) =
    (if in_loop t
     then (case call_of t of None \<Rightarrow> [] | Some c \<Rightarrow> (c, r) # loop_run (resume t r) rs)
     else [])"

fun loop_exec :: "worker \<Rightarrow> int list \<Rightarrow> worker" where
  "loop_exec t [] = t"
| "loop_exec t (r # rs) = (if in_loop t then loop_exec (resume t r) rs else t)"

fun is_mutex_call :: "call \<Rightarrow> bool" where
  "is_mutex_call (Mutex_lock f) = True"
| "is_mutex_call (Mutex_trylock f) = True"
| "is_mutex_call (Mutex_unlock f) = True"
| "is_mutex_call c = False"

text \<open>The mutex calls and the reads of the cancellation flag among a list of events.\<close>

definition loop_view :: "event list \<Rightarrow> event list" where
  "loop_view es = filter (\<lambda>e. is_mutex_call (fst e) \<or> fst e = Read_terminationRequired) es"

text \<open>
  The acquisition routine in the words of the specification, as the mutex calls and flag
  reads it makes when its calls return the values of a script: (1) blockingly acquire
  \<open>primary\<close>; (2) attempt \<open>secondary\<close>, with the non-blocking try-acquire if
  \<open>triesLeft > 0\<close> and a blocking acquire otherwise; (3) if step 2 failed, release
  \<open>primary\<close>, swap the pair, decrement \<open>triesLeft\<close> and, cancellation being checked
  between iterations, retry from step 1 unless the flag is set; (4) if step 2 succeeded the
  attempt is over. The script is the one the thread runs against: \<open>r1\<close>, \<open>r2\<close>, \<open>r3\<close> and
  \<open>r4\<close> are what the primary acquire, the secondary attempt, the release and the read of the
  flag return, and \<open>l1\<close>, \<open>l2\<close> and \<open>l3\<close> what the three log calls of a pass return. The
  routine stops where the script ends.
\<close>

definition spec_secondary :: "nat \<Rightarrow> int \<Rightarrow> call" where
  "spec_secondary secondary n = (if n > 0 then Mutex_trylock secondary else Mutex_lock secondary)"

fun spec_attempt :: "nat \<Rightarrow> nat \<Rightarrow> int \<Rightarrow> int list \<Rightarrow> event list" where
  "spec_attempt primary secondary n (r1 # l1 # r2 # l2 # l3 # r3 # r4 # rest) =
    (Mutex_lock primary, r1) # (spec_secondary secondary n, r2) #
    (if r2 = 0 then []
     else (Mutex_unlock primary, r3) # (Read_terminationRequired, r4) #
          (if r4 = 0 then spec_attempt secondary primary (n - 1) rest else []))"
| "spec_attempt primary secondary n [r1, l1, r2, l2, l3, r3] =
    (Mutex_lock primary, r1) # (spec_secondary secondary n, r2) #
    (if r2 = 0 then [] else [(Mutex_unlock primary, r3)])"
| "spec_attempt primary secondary n [r1, l1, r2, l2, l3] =
    [(Mutex_lock primary, r1), (spec_secondary secondary n, r2)]"
| "spec_attempt primary secondary n [r1, l1, r2, l2] =
    [(Mutex_lock primary, r1), (spec_secondary secondary n, r2)]"
| "spec_attempt primary secondary n [r1, l1, r2] =
    [(Mutex_lock primary, r1), (spec_secondary secondary n, r2)]"
| "spec_attempt primary secondary n [r1, l1] = [(Mutex_lock primary, r1)]"
| "spec_attempt primary secondary n [r1] = [(Mutex_lock primary, r1)]"
| "spec_attempt primary secondary n [] = []"

text \<open>
  The mutexes a thread holds after a sequence of its own events: an acquire that returned 0
  adds the mutex, a release removes it.
\<close>

fun hold :: "nat set \<Rightarrow> event \<Rightarrow> nat set" where
  "hold H (Mutex_lock f, r) = (if r = 0 then insert f H else H)"
| "hold H (Mutex_trylock f, r) = (if r = 0 then insert f H else H)"
| "hold H (Mutex_unlock f, r) = H - {f}"
| "hold H (c, r) = H"

fun held :: "nat set \<Rightarrow> event list \<Rightarrow> nat set" where
  "held H [] = H"
| "held H (e # es) = held (hold H e) es"

text \<open>The mutexes the thread can hold at each program point.\<close>

definition may_hold :: "worker \<Rightarrow> nat set" where
  "may_hold t =
    (case pc t of
       Log_takes_first \<Rightarrow> {forkLeft' t}
     | Attempt_secondary \<Rightarrow> {forkLeft' t}
     | Log_takes_second \<Rightarrow> (if failed t = 0 then {forkLeft' t, forkRight' t} else {forkLeft' t})
     | Log_switching \<Rightarrow> {forkLeft' t}
     | Unlock_primary \<Rightarrow> {forkLeft' t}
     | Set_eating \<Rightarrow> {forkLeft' t, forkRight' t}
     | Inc_plates \<Rightarrow> {forkLeft' t, forkRight' t}
     | Load_gpio_busy \<Rightarrow> {forkLeft' t, forkRight' t}
     | Gpio_busy \<Rightarrow> {forkLeft' t, forkRight' t}
     | Log_eating \<Rightarrow> {forkLeft' t, forkRight' t}
     | Rand_eat \<Rightarrow> {forkLeft' t, forkRight' t}
     | Sleep_eat \<Rightarrow> {forkLeft' t, forkRight' t}
     | Unlock_right \<Rightarrow> {forkLeft' t, forkRight' t}
     | Unlock_left \<Rightarrow> {forkLeft' t}
     | _ \<Rightarrow> {})"

text \<open>The non-blocking probes among a list of events, and the probes an attempt has left.\<close>

definition probes :: "event list \<Rightarrow> nat" where
  "probes es = length (filter (\<lambda>e. case fst e of Mutex_trylock f \<Rightarrow> True | _ \<Rightarrow> False) es)"

definition probes_left :: "worker \<Rightarrow> nat" where
  "probes_left t =
    (case pc t of
       Lock_primary \<Rightarrow> nat (triesLeft t)
     | Log_takes_first \<Rightarrow> nat (triesLeft t)
     | Attempt_secondary \<Rightarrow> nat (triesLeft t)
     | Log_takes_second \<Rightarrow> (if failed t = 0 then 0 else nat (triesLeft t - 1))
     | Log_switching \<Rightarrow> nat (triesLeft t - 1)
     | Unlock_primary \<Rightarrow> nat (triesLeft t - 1)
     | Do_while_check \<Rightarrow> nat (triesLeft t)
     | _ \<Rightarrow> 0)"

text \<open>Two scripts that differ only in what \<open>GPIO_SetValue\<close> returned.\<close>

fun differ_at_gpio :: "worker \<Rightarrow> int list \<Rightarrow> int list \<Rightarrow> bool" where
  "differ_at_gpio t [] [] = True"
| "differ_at_gpio t (r # rs) (r' # rs') =
    ((r = r' \<or> pc t = Gpio_busy \<or> pc t = Gpio_idle) \<and> differ_at_gpio (resume t r) rs rs')"
| "differ_at_gpio t rs rs' = False"

definition logged :: "event list \<Rightarrow> message list" where
  "logged es = concat (map (\<lambda>e. case fst e of Log_Debug m \<Rightarrow> [m] | _ \<Rightarrow> []) es)"


text \<open>Lines 71-79 are reached only after \<open>if (failed)\<close> on line 70.\<close>

definition consistent :: "worker \<Rightarrow> bool" where
  "consistent t =
    (pc t = Log_switching \<or> pc t = Unlock_primary \<or> pc t = Do_while_check \<longrightarrow> failed t \<noteq> 0)"


subsection \<open>main\<close>

text \<open>The program points of \<open>main\<close>; \<open>exit(1)\<close> and \<open>return 0\<close> end the process.\<close>

datatype main_pc =
    M_Log_starting         \<comment> \<open>line 102\<close>
  | M_Sigaction            \<comment> \<open>line 108\<close>
  | M_Gpio_open nat        \<comment> \<open>lines 112-116, one call per line\<close>
  | M_Mutex_init           \<comment> \<open>line 127\<close>
  | M_Log_failed_mutexes   \<comment> \<open>line 129\<close>
  | M_Pthread_create       \<comment> \<open>lines 135-142\<close>
  | M_Log_failed_thread    \<comment> \<open>line 144\<close>
  | M_While_check          \<comment> \<open>line 151\<close>
  | M_Log_hello            \<comment> \<open>line 152\<close>
  | M_Read_isEating        \<comment> \<open>line 154, the read of \<open>philosophers[i].isEating\<close>\<close>
  | M_Log_flag             \<comment> \<open>line 154\<close>
  | M_Log_separator        \<comment> \<open>line 156\<close>
  | M_Read_platesCounter   \<comment> \<open>line 158, the read of \<open>philosophers[i].platesCounter\<close>\<close>
  | M_Log_plates           \<comment> \<open>line 158\<close>
  | M_Log_closing          \<comment> \<open>line 160\<close>
  | M_Nanosleep            \<comment> \<open>line 161\<close>
  | M_Log_exiting          \<comment> \<open>line 164\<close>
  | M_Exited               \<comment> \<open>after \<open>exit(1)\<close>, lines 130 and 145\<close>
  | M_Returned             \<comment> \<open>after \<open>return 0\<close>, line 165\<close>

definition nameList :: "string list" where
  "nameList = [''Socrates'', ''Plato'', ''Phytagoras'', ''Aristotle'', ''Diogenes'']"

text \<open>
  The locals of \<open>main\<close>. \<open>loaded\<close> holds the field of a philosopher that line 154 or 158
  has just read, until \<open>Log_Debug\<close> prints it.
\<close>

record main_state =
  mpc :: main_pc
  gpios :: "int list"
  philosophers :: "philData list"
  main_i :: nat
  main_failed :: int
  loaded :: int

text \<open>
  Lines 136-140 for philosopher \<open>i\<close>: the stores into its struct before the thread is
  created. Lines 141 and 142 store \<open>fail\<close> and \<open>gpio\<close> after that.
\<close>

definition wire :: "philData \<Rightarrow> nat \<Rightarrow> philData" where
  "wire p i =
    p\<lparr>name := nameList ! i, forkLeft := i, forkRight := (i + 1) mod 5,
      platesCounter := 0, isEating := 0\<rparr>"

definition main_call_of :: "main_state \<Rightarrow> call option" where
  "main_call_of m =
    (case mpc m of
       M_Log_starting \<Rightarrow> Some (Log_Debug Starting)
     | M_Sigaction \<Rightarrow> Some Sigaction
     | M_Gpio_open k \<Rightarrow> Some (GPIO_OpenAsOutput k)
     | M_Mutex_init \<Rightarrow> Some (Mutex_init (main_i m))
     | M_Log_failed_mutexes \<Rightarrow> Some (Log_Debug Failed_mutexes)
     | M_Pthread_create \<Rightarrow> Some (Pthread_create (main_i m))
     | M_Log_failed_thread \<Rightarrow> Some (Log_Debug (Failed_thread (nameList ! main_i m)))
     | M_While_check \<Rightarrow> Some Read_terminationRequired
     | M_Log_hello \<Rightarrow> Some (Log_Debug Hello)
     | M_Read_isEating \<Rightarrow> Some (Read_isEating (main_i m))
     | M_Log_flag \<Rightarrow> Some (Log_Debug (Flag (if loaded m = 0 then ''0'' else ''1'')))
     | M_Log_separator \<Rightarrow> Some (Log_Debug Separator)
     | M_Read_platesCounter \<Rightarrow> Some (Read_platesCounter (main_i m))
     | M_Log_plates \<Rightarrow> Some (Log_Debug (Plates (loaded m)))
     | M_Log_closing \<Rightarrow> Some (Log_Debug Closing)
     | M_Nanosleep \<Rightarrow> Some (Nanosleep 1)
     | M_Log_exiting \<Rightarrow> Some (Log_Debug Exiting)
     | M_Exited \<Rightarrow> None
     | M_Returned \<Rightarrow> None)"

definition main_resume :: "main_state \<Rightarrow> int \<Rightarrow> main_state" where
  "main_resume m r =
    (case mpc m of
       M_Log_starting \<Rightarrow> m\<lparr>mpc := M_Sigaction\<rparr>
     | M_Sigaction \<Rightarrow> m\<lparr>mpc := M_Gpio_open 0\<rparr>
     | M_Gpio_open k \<Rightarrow>
         if k < 4 then m\<lparr>gpios := (gpios m)[k := r], mpc := M_Gpio_open (k + 1)\<rparr>
         else m\<lparr>gpios := (gpios m)[k := r], main_i := 0, mpc := M_Mutex_init\<rparr>
     | M_Mutex_init \<Rightarrow>
         if r \<noteq> 0 then m\<lparr>main_failed := r, mpc := M_Log_failed_mutexes\<rparr>
         else if main_i m + 1 < 5 then m\<lparr>main_failed := r, main_i := main_i m + 1\<rparr>
         else m\<lparr>main_failed := r, main_i := 0, mpc := M_Pthread_create\<rparr>
     | M_Log_failed_mutexes \<Rightarrow> m\<lparr>mpc := M_Exited\<rparr>
     | M_Pthread_create \<Rightarrow>
         (let m' = m\<lparr>philosophers := (philosophers m)[main_i m :=
                    (wire (philosophers m ! main_i m) (main_i m))
                      \<lparr>fail := r, gpio := gpios m ! main_i m\<rparr>]\<rparr>
          in if r \<noteq> 0 then m'\<lparr>mpc := M_Log_failed_thread\<rparr>
             else if main_i m + 1 < 5 then m'\<lparr>main_i := main_i m + 1\<rparr>
             else m'\<lparr>main_i := main_i m + 1, mpc := M_While_check\<rparr>)
     | M_Log_failed_thread \<Rightarrow> m\<lparr>mpc := M_Exited\<rparr>
     | M_While_check \<Rightarrow> if r \<noteq> 0 then m\<lparr>mpc := M_Log_exiting\<rparr> else m\<lparr>mpc := M_Log_hello\<rparr>
     | M_Log_hello \<Rightarrow> m\<lparr>main_i := 0, mpc := M_Read_isEating\<rparr>
     | M_Read_isEating \<Rightarrow> m\<lparr>loaded := r, mpc := M_Log_flag\<rparr>
     | M_Log_flag \<Rightarrow>
         if main_i m + 1 < 5 then m\<lparr>main_i := main_i m + 1, mpc := M_Read_isEating\<rparr>
         else m\<lparr>main_i := main_i m + 1, mpc := M_Log_separator\<rparr>
     | M_Log_separator \<Rightarrow> m\<lparr>main_i := 0, mpc := M_Read_platesCounter\<rparr>
     | M_Read_platesCounter \<Rightarrow> m\<lparr>loaded := r, mpc := M_Log_plates\<rparr>
     | M_Log_plates \<Rightarrow>
         if main_i m + 1 < 5 then m\<lparr>main_i := main_i m + 1, mpc := M_Read_platesCounter\<rparr>
         else m\<lparr>main_i := main_i m + 1, mpc := M_Log_closing\<rparr>
     | M_Log_closing \<Rightarrow> m\<lparr>mpc := M_Nanosleep\<rparr>
     | M_Nanosleep \<Rightarrow> m\<lparr>mpc := M_While_check\<rparr>
     | M_Log_exiting \<Rightarrow> m\<lparr>mpc := M_Returned\<rparr>
     | M_Exited \<Rightarrow> m
     | M_Returned \<Rightarrow> m)"

text \<open>The exit status of the process, once it has one.\<close>

definition exit_status :: "main_state \<Rightarrow> int option" where
  "exit_status m = (case mpc m of M_Exited \<Rightarrow> Some 1 | M_Returned \<Rightarrow> Some 0 | _ \<Rightarrow> None)"

text \<open>
  \<open>main\<close> at its first line. The arrays \<open>gpios\<close> and \<open>philosophers\<close> are uninitialised in
  C; every element is written before it is read.
\<close>

definition unset :: philData where
  "unset = \<lparr>forkLeft = 0, forkRight = 0, name = [], gpio = 0, platesCounter = 0, isEating = 0, fail = 0\<rparr>"

definition main_start :: main_state where
  "main_start =
    \<lparr>mpc = M_Log_starting, gpios = replicate 5 0, philosophers = replicate 5 unset,
     main_i = 0, main_failed = 0, loaded = 0\<rparr>"

fun main_run :: "main_state \<Rightarrow> int list \<Rightarrow> event list" where
  "main_run m [] = []"
| "main_run m (r # rs) =
    (case main_call_of m of None \<Rightarrow> [] | Some c \<Rightarrow> (c, r) # main_run (main_resume m r) rs)"

fun main_exec :: "main_state \<Rightarrow> int list \<Rightarrow> main_state" where
  "main_exec m [] = m"
| "main_exec m (r # rs) = main_exec (main_resume m r) rs"

fun is_startup_call :: "call \<Rightarrow> bool" where
  "is_startup_call (Mutex_init f) = True"
| "is_startup_call (Pthread_create i) = True"
| "is_startup_call c = False"

fun is_stop_call :: "call \<Rightarrow> bool" where
  "is_stop_call (Pthread_join i) = True"
| "is_stop_call (Mutex_destroy f) = True"
| "is_stop_call (Mutex_unlock f) = True"
| "is_stop_call c = False"

definition stop_calls :: "event list \<Rightarrow> event list" where
  "stop_calls es = filter (\<lambda>e. is_stop_call (fst e)) es"

text \<open>The startup loops of lines 126-147 are behind \<open>main\<close>.\<close>

definition started :: "main_state \<Rightarrow> bool" where
  "started m =
    (case mpc m of
       M_While_check \<Rightarrow> True | M_Log_hello \<Rightarrow> True | M_Read_isEating \<Rightarrow> True | M_Log_flag \<Rightarrow> True
     | M_Log_separator \<Rightarrow> True | M_Read_platesCounter \<Rightarrow> True | M_Log_plates \<Rightarrow> True
     | M_Log_closing \<Rightarrow> True | M_Nanosleep \<Rightarrow> True | M_Log_exiting \<Rightarrow> True | M_Returned \<Rightarrow> True
     | _ \<Rightarrow> False)"


subsection \<open>The five philosophers on the five mutexes\<close>

text \<open>
  The shared memory: each mutex of \<open>forks[5]\<close> is unlocked (\<open>None\<close>) or locked by the
  philosopher of that index, and the flag \<open>terminationRequired\<close>. The philosophers run
  interleaved, one call at a time.
\<close>

record shared =
  terminationRequired :: int

record table = shared +
  forks :: "nat option list"
  diners :: "worker list"

definition EBUSY :: int where
  "EBUSY = 16"

text \<open>The signal handler stores \<open>true\<close> in the flag, in whatever else the memory holds.\<close>

definition TerminationHandler :: "'a shared_scheme \<Rightarrow> 'a shared_scheme" where
  "TerminationHandler s = s\<lparr>terminationRequired := 1\<rparr>"

text \<open>A move of the system: philosopher \<open>i\<close> makes its next call, or the signal arrives.\<close>

datatype move = Step nat int | SIGTERM

text \<open>
  What the calls do on the shared memory. \<open>pthread_mutex_lock\<close> on a locked mutex does not
  return (no move, \<open>None\<close>) and returns 0 otherwise; \<open>pthread_mutex_trylock\<close> returns
  \<open>EBUSY\<close> on a locked mutex; \<open>pthread_mutex_unlock\<close> unlocks (in every reachable state
  the caller holds the mutex, \<open>release_may_hold\<close>). A read of the flag returns the flag.
  Every other call, and the read of \<open>phil->gpio\<close>, returns the value \<open>r\<close> that comes with
  the move.
\<close>

definition step :: "table \<Rightarrow> move \<Rightarrow> table option" where
  "step s mv =
    (case mv of
       SIGTERM \<Rightarrow> Some (TerminationHandler s)
     | Step i r \<Rightarrow>
         if i < length (diners s) then
           (let t = diners s ! i in
            case call_of t of
              None \<Rightarrow> None
            | Some c \<Rightarrow>
                (case c of
                   Mutex_lock f \<Rightarrow>
                     if f < length (forks s) \<and> forks s ! f = None
                     then Some (s\<lparr>forks := (forks s)[f := Some i],
                                  diners := (diners s)[i := resume t 0]\<rparr>)
                     else None
                 | Mutex_trylock f \<Rightarrow>
                     if f < length (forks s) \<and> forks s ! f = None
                     then Some (s\<lparr>forks := (forks s)[f := Some i],
                                  diners := (diners s)[i := resume t 0]\<rparr>)
                     else Some (s\<lparr>diners := (diners s)[i := resume t EBUSY]\<rparr>)
                 | Mutex_unlock f \<Rightarrow>
                     Some (s\<lparr>forks := (forks s)[f := None],
                             diners := (diners s)[i := resume t 0]\<rparr>)
                 | Read_terminationRequired \<Rightarrow>
                     Some (s\<lparr>diners := (diners s)[i := resume t (terminationRequired s)]\<rparr>)
                 | _ \<Rightarrow> Some (s\<lparr>diners := (diners s)[i := resume t r]\<rparr>)))
         else None)"

fun steps :: "table \<Rightarrow> move list \<Rightarrow> table option" where
  "steps s [] = Some s"
| "steps s (mv # mvs) = (case step s mv of None \<Rightarrow> None | Some s' \<Rightarrow> steps s' mvs)"

text \<open>
  The system once \<open>main\<close> has initialised the mutexes and created the five threads, each
  on its struct as lines 136-140 have stored it.
\<close>

definition table_start :: table where
  "table_start =
    \<lparr>terminationRequired = 0,
     forks = replicate 5 None,
     diners = map (\<lambda>i. PhilPhunction (wire unset i)) [0..<5]\<rparr>"

inductive reachable :: "table \<Rightarrow> bool" where
  start: "reachable table_start"
| move: "reachable s \<Longrightarrow> step s mv = Some s' \<Longrightarrow> reachable s'"

text \<open>
  Philosopher \<open>i\<close> is blocked: its next call is a blocking acquire of a locked mutex.
  \<open>holding\<close> lists the mutexes it has locked.
\<close>

definition blocked :: "table \<Rightarrow> nat \<Rightarrow> bool" where
  "blocked s i =
    (case call_of (diners s ! i) of
       Some (Mutex_lock f) \<Rightarrow> \<not> (f < length (forks s) \<and> forks s ! f = None)
     | _ \<Rightarrow> False)"

definition holding :: "table \<Rightarrow> nat \<Rightarrow> nat list" where
  "holding s i = filter (\<lambda>f. forks s ! f = Some i) [0..<length (forks s)]"

text \<open>
  The circular wait: every philosopher holds exactly one mutex and is blocked on the mutex
  a neighbour holds.
\<close>

definition circular_wait :: "table \<Rightarrow> bool" where
  "circular_wait s =
    list_all (\<lambda>i. length (holding s i) = 1 \<and> blocked s i) [0..<length (diners s)]"

text \<open>The schedule in which the five philosophers move in lockstep, 21 calls each.\<close>

definition lockstep :: "move list" where
  "lockstep = concat (replicate 21 (map (\<lambda>i. Step i 0) [0..<5]))"

text \<open>
  What holds of philosopher \<open>i\<close> at every moment of a run of the system: its struct is
  wired to mutexes \<open>i\<close> and \<open>(i + 1) mod 5\<close>; inside the loop and while eating, \<open>triesLeft\<close>
  is 2, 1 or 0 and the local pair is the wired pair, swapped exactly when \<open>triesLeft = 1\<close>;
  a failed attempt is a failed probe.
\<close>

definition paired :: "nat \<Rightarrow> worker \<Rightarrow> bool" where
  "paired i t =
    (0 \<le> triesLeft t \<and> triesLeft t \<le> 2 \<and>
     (if triesLeft t = 1
      then forkLeft' t = (i + 1) mod 5 \<and> forkRight' t = i
      else forkLeft' t = i \<and> forkRight' t = (i + 1) mod 5))"

definition seated :: "nat \<Rightarrow> worker \<Rightarrow> bool" where
  "seated i t =
    (forkLeft (phil t) = i \<and> forkRight (phil t) = (i + 1) mod 5 \<and> consistent t \<and>
     (case pc t of
        While_check \<Rightarrow> True | Log_thinking \<Rightarrow> True | Rand_think \<Rightarrow> True | Sleep_think \<Rightarrow> True
      | Returned \<Rightarrow> True | Clear_eating \<Rightarrow> True | Load_gpio_idle \<Rightarrow> True
      | Gpio_idle \<Rightarrow> True
      | Log_hungry \<Rightarrow> forkLeft' t = i \<and> forkRight' t = (i + 1) mod 5
      | Log_takes_second \<Rightarrow> paired i t \<and> (failed t \<noteq> 0 \<longrightarrow> 0 < triesLeft t)
      | Log_switching \<Rightarrow> paired i t \<and> 0 < triesLeft t
      | Unlock_primary \<Rightarrow> paired i t \<and> 0 < triesLeft t
      | _ \<Rightarrow> paired i t))"

definition table_inv :: "table \<Rightarrow> bool" where
  "table_inv s =
    (length (forks s) = 5 \<and> length (diners s) = 5 \<and>
     (\<forall>i<5. seated i (diners s ! i)) \<and>
     (\<forall>f<5. \<forall>i<5. (forks s ! f = Some i) = (f \<in> may_hold (diners s ! i))) \<and>
     (\<forall>f<5. \<forall>j. forks s ! f = Some j \<longrightarrow> j < 5))"

text \<open>Philosopher \<open>i\<close> sits in the final blocking acquire of line 68, holding its left mutex.\<close>

definition in_fallback :: "table \<Rightarrow> nat \<Rightarrow> bool" where
  "in_fallback s i =
    (pc (diners s ! i) = Attempt_secondary \<and> triesLeft (diners s ! i) = 0 \<and>
     forkLeft' (diners s ! i) = i \<and> forkRight' (diners s ! i) = (i + 1) mod 5 \<and>
     forks s ! i = Some i)"

subsection \<open>main and the signal\<close>

text \<open>
  \<open>main\<close> together with the flag it shares with the signal handler. A move is a call of
  \<open>main\<close>, where a read of the flag returns the flag and every other call the value that
  comes with the move, or the arrival of the signal, which runs the handler.
\<close>

record process = shared +
  controller :: main_state

datatype process_move = Call int | Signal

definition process_step :: "process \<Rightarrow> process_move \<Rightarrow> process" where
  "process_step p mv =
    (case mv of
       Signal \<Rightarrow> TerminationHandler p
     | Call r \<Rightarrow>
         p\<lparr>controller := main_resume (controller p)
              (if main_call_of (controller p) = Some Read_terminationRequired
               then terminationRequired p else r)\<rparr>)"

fun process_run :: "process \<Rightarrow> process_move list \<Rightarrow> process" where
  "process_run p [] = p"
| "process_run p (mv # mvs) = process_run (process_step p mv) mvs"

definition process_start :: process where
  "process_start = \<lparr>terminationRequired = 0, controller = main_start\<rparr>"

text \<open>The calls of \<open>main\<close> among a list of moves.\<close>

fun calls :: "process_move list \<Rightarrow> nat" where
  "calls [] = 0"
| "calls (Call r # mvs) = Suc (calls mvs)"
| "calls (Signal # mvs) = calls mvs"

text \<open>
  With the flag set, the number of calls \<open>main\<close> still makes in its loop of lines 151-162
  before it has returned: from line 152 it finishes the status report (26 calls to go),
  reads the flag on line 151, logs and returns.
\<close>

definition calls_to_return :: "main_state \<Rightarrow> nat" where
  "calls_to_return m =
    (case mpc m of
       M_Log_hello \<Rightarrow> 26
     | M_Read_isEating \<Rightarrow> 17 + 2 * (4 - main_i m)
     | M_Log_flag \<Rightarrow> 16 + 2 * (4 - main_i m)
     | M_Log_separator \<Rightarrow> 15
     | M_Read_platesCounter \<Rightarrow> 6 + 2 * (4 - main_i m)
     | M_Log_plates \<Rightarrow> 5 + 2 * (4 - main_i m)
     | M_Log_closing \<Rightarrow> 4
     | M_Nanosleep \<Rightarrow> 3
     | M_While_check \<Rightarrow> 2
     | M_Log_exiting \<Rightarrow> 1
     | _ \<Rightarrow> 0)"

subsection \<open>The ring\<close>

text \<open>Philosopher \<open>i\<close> is wired to mutex \<open>i\<close> on its left and \<open>(i + 1) mod 5\<close> on its right.\<close>

definition wired :: "nat \<Rightarrow> philData \<Rightarrow> bool" where
  "wired i p = (forkLeft p = i \<and> forkRight p = (i + 1) mod 5)"

text \<open>
  What holds of \<open>main\<close> at every moment: in the creation loop the philosophers before
  \<open>i\<close> are wired, after it all five are.
\<close>

definition main_inv :: "main_state \<Rightarrow> bool" where
  "main_inv m =
    (length (philosophers m) = 5 \<and>
     (mpc m = M_Pthread_create \<longrightarrow>
        main_i m < 5 \<and> (\<forall>j < main_i m. wired j (philosophers m ! j))) \<and>
     (started m \<longrightarrow> (\<forall>j < 5. wired j (philosophers m ! j))))"

text \<open>
  From line 59 to line 89 the local pair of a thread is the pair of its struct, in one
  order or the other.
\<close>

definition locals_wired :: "worker \<Rightarrow> bool" where
  "locals_wired t =
    (case pc t of
       While_check \<Rightarrow> True | Log_thinking \<Rightarrow> True | Rand_think \<Rightarrow> True | Sleep_think \<Rightarrow> True
     | Clear_eating \<Rightarrow> True | Load_gpio_idle \<Rightarrow> True | Gpio_idle \<Rightarrow> True
     | Returned \<Rightarrow> True
     | _ \<Rightarrow> {forkLeft' t, forkRight' t} = {forkLeft (phil t), forkRight (phil t)})"

text \<open>The mutex a call is on.\<close>

fun mutex_of :: "call \<Rightarrow> nat option" where
  "mutex_of (Mutex_lock f) = Some f"
| "mutex_of (Mutex_trylock f) = Some f"
| "mutex_of (Mutex_unlock f) = Some f"
| "mutex_of c = None"

subsection \<open>Concrete inputs\<close>

text \<open>The first philosopher as \<open>main\<close> creates it.\<close>

definition socrates :: worker where
  "socrates = PhilPhunction (wire unset 0)"

text \<open>
  Socrates about to acquire his first mutex (line 65), after a failed probe (line 69),
  after both acquires have returned 0 (line 69), and about to set his indicator (line 84).
\<close>

definition socrates_hungry :: worker where
  "socrates_hungry = exec socrates [0, 0, 5, 0, 0]"

definition socrates_backing_off :: worker where
  "socrates_backing_off = exec socrates [0, 0, 5, 0, 0, 0, 0, 16]"


definition socrates_eating :: worker where
  "socrates_eating = exec socrates [0, 0, 5, 0, 0, 0, 0, 0, 0, 0, 0, 10]"

text \<open>
  Scripts for \<open>main\<close>: the third \<open>pthread_mutex_init\<close> returns 22; the second
  \<open>pthread_create\<close> returns 11; startup succeeds and the first read of the flag finds
  it set.
\<close>

definition init_fails :: "int list" where
  "init_fails = [0, 0, 10, 11, 12, 13, 14, 0, 0, 22, 0]"

definition create_fails :: "int list" where
  "create_fails = [0, 0, 10, 11, 12, 13, 14, 0, 0, 0, 0, 0, 0, 11, 0]"

definition cancelled :: "int list" where
  "cancelled = [0, 0, 10, 11, 12, 13, 14, 0, 0, 0, 0, 0, 0, 0, 0, 0, 0, 1, 0]"

text \<open>\<open>main\<close> with the five threads created, at the first check of its loop (line 151).\<close>

definition main_started :: main_state where
  "main_started = main_exec main_start [0, 0, 10, 11, 12, 13, 14, 0, 0, 0, 0, 0, 0, 0, 0, 0, 0]"


text \<open>
  \<open>main\<close> and the flag after a startup without failure and three calls of the loop, the
  flag clear; and the 26 calls that follow.
\<close>

definition process_monitoring :: process where
  "process_monitoring =
    process_run process_start
      (map Call [0, 0, 10, 11, 12, 13, 14, 0, 0, 0, 0, 0, 0, 0, 0, 0, 0, 7, 0, 1])"

definition calls_26 :: "process_move list" where
  "calls_26 = replicate 26 (Call 0)"

text \<open>
  The table with every philosopher in the blocking acquire of line 68, \<open>triesLeft = 0\<close>,
  its left mutex locked by it and its right mutex locked by its neighbour.
\<close>

definition all_waiting :: table where
  "all_waiting =
    \<lparr>terminationRequired = 0,
     forks = [Some 0, Some 1, Some 2, Some 3, Some 4],
     diners = map (\<lambda>i. \<lparr>phil = wire unset i, pc = Attempt_secondary,
                        failed = 0, triesLeft = 0, swapped = 0, forkLeft' = i,
                        forkRight' = (i + 1) mod 5, sleepRandom = 1,
                        loaded_gpio = 0\<rparr>) [0..<5]\<rparr>"

section \<open>Properties of PhilPhunction\<close>

subsection \<open>The acquisition loop\<close>

lemma loop_run_outside: "\<not> in_loop t \<Longrightarrow> loop_run t rs = []"
  by (cases rs) simp_all

lemma loop_exec_outside: "\<not> in_loop t \<Longrightarrow> loop_exec t rs = t"
  by (cases rs) simp_all

lemma consistent_resume: "consistent t \<Longrightarrow> consistent (resume t r)"
  by (cases "pc t") (auto simp: consistent_def resume_def)

lemma snd_in_filter: "e \<in> set es \<Longrightarrow> Q e \<Longrightarrow> snd e \<in> set (map snd (filter Q es))"
  by (induction es) auto

lemma in_loop_call: "in_loop t \<Longrightarrow> \<exists>c. call_of t = Some c"
  by (cases "pc t") (simp_all add: in_loop_def call_of_def)

text \<open>
  The mutex calls and flag reads of the loop, from line 65 on, are those of the routine on
  the current pair and counter, whatever the script.
\<close>

lemma loop_view_attempt:
  "pc t = Lock_primary \<Longrightarrow> forkLeft' t = p \<Longrightarrow> forkRight' t = s \<Longrightarrow> triesLeft t = n \<Longrightarrow>
   loop_view (loop_run t rs) = spec_attempt p s n rs"
proof (induction p s n rs arbitrary: t rule: spec_attempt.induct)
  case (1 p s n r1 l1 r2 l2 l3 r3 r4 rest)
  show ?case
  proof (cases "r2 = 0")
    case True
    then show ?thesis using "1.prems"
      by (simp add: loop_view_def in_loop_def call_of_def resume_def spec_secondary_def)
  next
    case False
    show ?thesis
    proof (cases "r4 = 0")
      case True
      let ?t = "exec t [r1, l1, r2, l2, l3, r3, r4]"
      have t': "pc ?t = Lock_primary" "forkLeft' ?t = s" "forkRight' ?t = p" "triesLeft ?t = n - 1"
        using "1.prems" False True by (simp_all add: resume_def)
      have run: "loop_run t (r1 # l1 # r2 # l2 # l3 # r3 # r4 # rest) =
        (Mutex_lock p, r1) # (Log_Debug (Takes_fork (name (phil t)) (if swapped t = 0 then ''left'' else ''right'')), l1) #
        (spec_secondary s n, r2) # (Log_Debug (Takes_fork (name (phil t)) (if swapped t = 1 then ''left'' else ''right'')), l2) #
        (Log_Debug (Switching (name (phil t))), l3) # (Mutex_unlock p, r3) #
        (Read_terminationRequired, r4) # loop_run ?t rest"
        using "1.prems" False True
        by (simp add: in_loop_def call_of_def resume_def spec_secondary_def)
      show ?thesis
        unfolding run using "1.IH" [OF False True t'] False True
        by (simp add: loop_view_def spec_secondary_def)
    next
      case r4: False
      then show ?thesis using "1.prems" False
        by (simp add: loop_view_def in_loop_def call_of_def resume_def spec_secondary_def
            loop_run_outside)
    qed
  qed
next
  case (2 p s n r1 l1 r2 l2 l3 r3)
  then show ?case
    by (cases "r2 = 0")
      (simp_all add: loop_view_def in_loop_def call_of_def resume_def spec_secondary_def)
next
  case (3 p s n r1 l1 r2 l2 l3)
  then show ?case
    by (cases "r2 = 0")
      (simp_all add: loop_view_def in_loop_def call_of_def resume_def spec_secondary_def)
qed (simp_all add: loop_view_def in_loop_def call_of_def resume_def spec_secondary_def)

text \<open>The loop is left either to eat, with \<open>failed = 0\<close>, or for the next cycle check.\<close>

lemma loop_exit:
  "consistent t \<Longrightarrow> in_loop t \<Longrightarrow> \<not> in_loop (loop_exec t rs) \<Longrightarrow>
   (pc (loop_exec t rs) = Set_eating \<and> failed (loop_exec t rs) = 0) \<or>
   (pc (loop_exec t rs) = While_check \<and> failed (loop_exec t rs) \<noteq> 0)"
proof (induction rs arbitrary: t)
  case Nil
  then show ?case by simp
next
  case (Cons r rs)
  have c': "consistent (resume t r)" using Cons.prems(1) by (rule consistent_resume)
  show ?case
  proof (cases "in_loop (resume t r)")
    case True
    with Cons c' show ?thesis by simp
  next
    case False
    then have "loop_exec t (r # rs) = resume t r"
      using Cons.prems(2) by (simp add: loop_exec_outside)
    moreover have "(pc (resume t r) = Set_eating \<and> failed (resume t r) = 0) \<or>
      (pc (resume t r) = While_check \<and> failed (resume t r) \<noteq> 0)"
      using False Cons.prems(1,2)
      by (cases "pc t") (auto simp: in_loop_def resume_def consistent_def split: if_splits)
    ultimately show ?thesis by simp
  qed
qed

text \<open>Where every blocking acquire returns 0, the thread holds what \<open>may_hold\<close> says.\<close>

lemma hold_step:
  "call_of t = Some c \<Longrightarrow> consistent t \<Longrightarrow> in_loop t \<Longrightarrow>
   (\<forall>f. c = Mutex_lock f \<longrightarrow> r = 0) \<Longrightarrow>
   hold (may_hold t) (c, r) = may_hold (resume t r)"
proof (cases "pc t")
  case Attempt_secondary
  assume "call_of t = Some c" "\<forall>f. c = Mutex_lock f \<longrightarrow> r = 0"
  with Attempt_secondary show ?thesis
    by (cases "0 < triesLeft t") (auto simp: call_of_def resume_def may_hold_def)
qed (auto simp: call_of_def resume_def may_hold_def in_loop_def consistent_def)

lemma held_loop:
  "consistent t \<Longrightarrow>
   \<forall>e \<in> set (loop_run t rs). \<forall>f. fst e = Mutex_lock f \<longrightarrow> snd e = 0 \<Longrightarrow>
   held (may_hold t) (loop_run t rs) = may_hold (loop_exec t rs)"
proof (induction rs arbitrary: t)
  case Nil
  then show ?case by simp
next
  case (Cons r rs)
  show ?case
  proof (cases "in_loop t")
    case False
    then show ?thesis by simp
  next
    case True
    then obtain c where c: "call_of t = Some c"
      using in_loop_call by blast
    have run: "loop_run t (r # rs) = (c, r) # loop_run (resume t r) rs"
      using True c by simp
    have r0: "\<forall>f. c = Mutex_lock f \<longrightarrow> r = 0"
      using Cons.prems(2) True c by simp
    have rest: "\<forall>e \<in> set (loop_run (resume t r) rs). \<forall>f. fst e = Mutex_lock f \<longrightarrow> snd e = 0"
      using Cons.prems(2) True c by simp
    have "held (may_hold t) (loop_run t (r # rs)) =
          held (may_hold (resume t r)) (loop_run (resume t r) rs)"
      using run hold_step [OF c Cons.prems(1) True r0] by simp
    also have "\<dots> = may_hold (loop_exec (resume t r) rs)"
      using Cons.IH [OF consistent_resume [OF Cons.prems(1)] rest] .
    finally show ?thesis using True by simp
  qed
qed

lemma pair_loop:
  "{forkLeft' (loop_exec t rs), forkRight' (loop_exec t rs)} = {forkLeft' t, forkRight' t}"
proof (induction rs arbitrary: t)
  case Nil
  then show ?case by simp
next
  case (Cons r rs)
  show ?case
  proof (cases "in_loop t")
    case False
    then show ?thesis by simp
  next
    case True
    then have "{forkLeft' (resume t r), forkRight' (resume t r)} = {forkLeft' t, forkRight' t}"
      by (cases "pc t") (auto simp: in_loop_def resume_def)
    with Cons.IH [of "resume t r"] True show ?thesis by simp
  qed
qed

text \<open>
  C1. Every acquisition attempt follows the routine. After the thinking sleep the thread
  announces that it is hungry and enters the loop with the local pair set to the
  philosopher's (left, right) and \<open>triesLeft = 2\<close>. For every script of return values the
  mutex calls and flag reads of the attempt are exactly those of the specification's
  routine on that pair run on the same script: blocking acquire of the primary, then the
  secondary by try-acquire while \<open>triesLeft > 0\<close> and by blocking acquire after; after a
  failed secondary the release of the primary and the read of the cancellation flag, and
  with the flag clear the next pass on the swapped pair with the counter one lower; the
  attempt ends only with a successful secondary, with the flag read as set, or with the
  script. Directly after a failed secondary attempt (line 69 with \<open>failed\<close> non-zero) the
  thread logs twice, releases the primary and reads the flag, and with the flag clear it is
  back on line 65 with the pair swapped and \<open>triesLeft\<close> decremented. The loop is left for
  eating exactly when the last secondary attempt returned 0, and the thread then holds both
  mutexes (the blocking acquires having returned 0, as the specification's \<open>acquire\<close>
  always does).
\<close>

theorem acquisition_routine:
  assumes "pc t = Sleep_think"
  shows "pc (exec t [a, b]) = Lock_primary \<and>
    forkLeft' (exec t [a, b]) = forkLeft (phil t) \<and>
    forkRight' (exec t [a, b]) = forkRight (phil t) \<and>
    triesLeft (exec t [a, b]) = 2 \<and>
    loop_view (loop_run (exec t [a, b]) rs) =
      spec_attempt (forkLeft (phil t)) (forkRight (phil t)) 2 rs \<and>
    (\<not> in_loop (loop_exec (exec t [a, b]) rs) \<longrightarrow>
       (pc (loop_exec (exec t [a, b]) rs) = Set_eating) =
       (failed (loop_exec (exec t [a, b]) rs) = 0)) \<and>
    (pc (loop_exec (exec t [a, b]) rs) = Set_eating \<and>
     (\<forall>e \<in> set (loop_run (exec t [a, b]) rs). \<forall>f. fst e = Mutex_lock f \<longrightarrow> snd e = 0) \<longrightarrow>
       held {} (loop_run (exec t [a, b]) rs) = {forkLeft (phil t), forkRight (phil t)}) \<and>
    (pc u = Log_takes_second \<and> failed u \<noteq> 0 \<longrightarrow>
       run u [x1, x2, x3, 0] =
         [(Log_Debug (Takes_fork (name (phil u)) (if swapped u = 1 then ''left'' else ''right'')), x1),
          (Log_Debug (Switching (name (phil u))), x2),
          (Mutex_unlock (forkLeft' u), x3),
          (Read_terminationRequired, 0)] \<and>
       pc (exec u [x1, x2, x3, 0]) = Lock_primary \<and>
       forkLeft' (exec u [x1, x2, x3, 0]) = forkRight' u \<and>
       forkRight' (exec u [x1, x2, x3, 0]) = forkLeft' u \<and>
       triesLeft (exec u [x1, x2, x3, 0]) = triesLeft u - 1)"
proof -
  define t0 where "t0 = exec t [a, b]"
  have t0: "pc t0 = Lock_primary" "forkLeft' t0 = forkLeft (phil t)"
    "forkRight' t0 = forkRight (phil t)" "triesLeft t0 = 2"
    using assms by (simp_all add: t0_def resume_def)
  have c: "consistent t0" using t0(1) by (simp add: consistent_def)
  have l: "in_loop t0" using t0(1) by (simp add: in_loop_def)
  have h0: "may_hold t0 = {}" using t0(1) by (simp add: may_hold_def)
  have r: "loop_view (loop_run t0 rs) =
      spec_attempt (forkLeft (phil t)) (forkRight (phil t)) 2 rs"
    using t0 by (rule loop_view_attempt)
  have x: "\<not> in_loop (loop_exec t0 rs) \<longrightarrow>
      (pc (loop_exec t0 rs) = Set_eating) = (failed (loop_exec t0 rs) = 0)"
    using loop_exit [OF c l, of rs] by auto
  have h: "held {} (loop_run t0 rs) = {forkLeft (phil t), forkRight (phil t)}"
    if "pc (loop_exec t0 rs) = Set_eating"
      and "\<forall>e \<in> set (loop_run t0 rs). \<forall>f. fst e = Mutex_lock f \<longrightarrow> snd e = 0"
  proof -
    have "held {} (loop_run t0 rs) = may_hold (loop_exec t0 rs)"
      using held_loop [OF c that(2)] h0 by simp
    also have "\<dots> = {forkLeft' (loop_exec t0 rs), forkRight' (loop_exec t0 rs)}"
      using that(1) by (simp add: may_hold_def)
    also have "\<dots> = {forkLeft (phil t), forkRight (phil t)}"
      using pair_loop [of t0 rs] t0 by simp
    finally show ?thesis .
  qed
  have again: "run u [x1, x2, x3, 0] =
         [(Log_Debug (Takes_fork (name (phil u)) (if swapped u = 1 then ''left'' else ''right'')), x1),
          (Log_Debug (Switching (name (phil u))), x2),
          (Mutex_unlock (forkLeft' u), x3),
          (Read_terminationRequired, 0)] \<and>
      pc (exec u [x1, x2, x3, 0]) = Lock_primary \<and>
      forkLeft' (exec u [x1, x2, x3, 0]) = forkRight' u \<and>
      forkRight' (exec u [x1, x2, x3, 0]) = forkLeft' u \<and>
      triesLeft (exec u [x1, x2, x3, 0]) = triesLeft u - 1"
    if "pc u = Log_takes_second" "failed u \<noteq> 0"
    using that by (simp add: call_of_def resume_def)
  show ?thesis using t0 r x h again unfolding t0_def by blast
qed

theorem acquisition_routine_witness:
  "pc (socrates\<lparr>pc := Sleep_think\<rparr>) = Sleep_think \<and>
   loop_view (loop_run (exec (socrates\<lparr>pc := Sleep_think\<rparr>) [0, 0])
     [0, 0, 16, 0, 0, 0, 0, 0, 0, 16, 0, 0, 0, 0, 0, 0, 0, 0]) =
     [(Mutex_lock 0, 0), (Mutex_trylock 1, 16), (Mutex_unlock 0, 0), (Read_terminationRequired, 0),
      (Mutex_lock 1, 0), (Mutex_trylock 0, 16), (Mutex_unlock 1, 0), (Read_terminationRequired, 0),
      (Mutex_lock 0, 0), (Mutex_lock 1, 0)] \<and>
   pc (loop_exec (exec (socrates\<lparr>pc := Sleep_think\<rparr>) [0, 0])
     [0, 0, 16, 0, 0, 0, 0, 0, 0, 16, 0, 0, 0, 0, 0, 0, 0, 0]) = Set_eating \<and>
   held {} (loop_run (exec (socrates\<lparr>pc := Sleep_think\<rparr>) [0, 0])
     [0, 0, 16, 0, 0, 0, 0, 0, 0, 16, 0, 0, 0, 0, 0, 0, 0, 0]) = {0, 1} \<and>
   pc socrates_backing_off = Log_takes_second \<and> failed socrates_backing_off \<noteq> 0 \<and>
   pc (exec socrates_backing_off [0, 0, 0, 0]) = Lock_primary \<and>
   forkLeft' (exec socrates_backing_off [0, 0, 0, 0]) = 1 \<and>
   forkRight' (exec socrates_backing_off [0, 0, 0, 0]) = 0 \<and>
   triesLeft (exec socrates_backing_off [0, 0, 0, 0]) = 1"
proof -
  let ?t = "socrates\<lparr>pc := Sleep_think\<rparr>"
  let ?rs = "[0, 0, 16, 0, 0, 0, 0, 0, 0, 16, 0, 0, 0, 0, 0, 0, 0, 0] :: int list"
  have p: "pc ?t = Sleep_think" by simp
  have w: "forkLeft (phil ?t) = 0" "forkRight (phil ?t) = 1"
    by (simp_all add: socrates_def PhilPhunction_def wire_def)
  have sa: "spec_attempt 0 1 2 ?rs =
     [(Mutex_lock 0, 0), (Mutex_trylock 1, 16), (Mutex_unlock 0, 0), (Read_terminationRequired, 0),
      (Mutex_lock 1, 0), (Mutex_trylock 0, 16), (Mutex_unlock 1, 0), (Read_terminationRequired, 0),
      (Mutex_lock 0, 0), (Mutex_lock 1, 0)]"
    by code_simp
  have lr: "map snd (filter (\<lambda>e. case fst e of Mutex_lock f \<Rightarrow> True | _ \<Rightarrow> False)
      (loop_run (exec ?t [0, 0]) ?rs)) = [0, 0, 0, 0]"
    by code_simp
  have e: "pc (loop_exec (exec ?t [0, 0]) ?rs) = Set_eating"
    by code_simp
  have ok: "\<forall>e \<in> set (loop_run (exec ?t [0, 0]) ?rs). \<forall>f. fst e = Mutex_lock f \<longrightarrow> snd e = 0"
  proof (intro ballI allI impI)
    fix e f assume e: "e \<in> set (loop_run (exec ?t [0, 0]) ?rs)" and f: "fst e = Mutex_lock f"
    have "snd e \<in> set (map snd (filter (\<lambda>e. case fst e of Mutex_lock f \<Rightarrow> True | _ \<Rightarrow> False)
        (loop_run (exec ?t [0, 0]) ?rs)))"
      by (rule snd_in_filter [OF e]) (simp add: f)
    then show "snd e = 0" unfolding lr by simp
  qed
  have u: "pc socrates_backing_off = Log_takes_second" "failed socrates_backing_off \<noteq> 0"
    by code_simp+
  have v: "forkRight' socrates_backing_off = 1" "forkLeft' socrates_backing_off = 0"
    "triesLeft socrates_backing_off - 1 = 1"
    by code_simp+
  note th = acquisition_routine [OF p, of 0 0 ?rs socrates_backing_off 0 0 0, unfolded w sa v]
  have lv: "loop_view (loop_run (exec ?t [0, 0]) ?rs) =
     [(Mutex_lock 0, 0), (Mutex_trylock 1, 16), (Mutex_unlock 0, 0), (Read_terminationRequired, 0),
      (Mutex_lock 1, 0), (Mutex_trylock 0, 16), (Mutex_unlock 1, 0), (Read_terminationRequired, 0),
      (Mutex_lock 0, 0), (Mutex_lock 1, 0)]"
    using th by blast
  have hd: "held {} (loop_run (exec ?t [0, 0]) ?rs) = {0, 1}"
    using th e ok by blast
  have ag: "pc (exec socrates_backing_off [0, 0, 0, 0]) = Lock_primary"
    "forkLeft' (exec socrates_backing_off [0, 0, 0, 0]) = 1"
    "forkRight' (exec socrates_backing_off [0, 0, 0, 0]) = 0"
    "triesLeft (exec socrates_backing_off [0, 0, 0, 0]) = 1"
    using th u by blast+
  show ?thesis
    by (intro conjI) (rule p lv e hd u ag)+
qed

subsection \<open>Bounded probing\<close>

lemma probes_step:
  "in_loop t \<Longrightarrow> call_of t = Some c \<Longrightarrow>
   probes [(c, r)] + probes_left (resume t r) \<le> probes_left t"
proof (cases "pc t")
  case Attempt_secondary
  assume "call_of t = Some c"
  with Attempt_secondary show ?thesis
    by (cases "0 < triesLeft t") (auto simp: call_of_def resume_def probes_def probes_left_def)
qed (auto simp: in_loop_def call_of_def resume_def probes_def probes_left_def)

lemma probes_Cons: "probes (e # es) = probes [e] + probes es"
  by (simp add: probes_def)

lemma probes_loop:
  "probes (loop_run t rs) + probes_left (loop_exec t rs) \<le> probes_left t"
proof (induction rs arbitrary: t)
  case Nil
  then show ?case by (simp add: probes_def)
next
  case (Cons r rs)
  show ?case
  proof (cases "in_loop t")
    case False
    then show ?thesis by (simp add: probes_def)
  next
    case True
    then obtain c where c: "call_of t = Some c"
      using in_loop_call by blast
    have "probes (loop_run t (r # rs)) + probes_left (loop_exec t (r # rs)) =
          probes [(c, r)] + (probes (loop_run (resume t r) rs) + probes_left (loop_exec (resume t r) rs))"
      using True c probes_Cons [of "(c, r)" "loop_run (resume t r) rs"] by simp
    also have "\<dots> \<le> probes [(c, r)] + probes_left (resume t r)"
      using Cons.IH [of "resume t r"] by simp
    also have "\<dots> \<le> probes_left t"
      using probes_step [OF True c] .
    finally show ?thesis .
  qed
qed

lemma triesLeft_loop: "triesLeft (loop_exec t rs) \<le> triesLeft t"
proof (induction rs arbitrary: t)
  case Nil
  then show ?case by simp
next
  case (Cons r rs)
  show ?case
  proof (cases "in_loop t")
    case False
    then show ?thesis by simp
  next
    case True
    then have "triesLeft (resume t r) \<le> triesLeft t"
      by (cases "pc t") (simp_all add: in_loop_def resume_def)
    moreover have "triesLeft (loop_exec (resume t r) rs) \<le> triesLeft (resume t r)"
      by (rule Cons.IH)
    ultimately show ?thesis using True by simp
  qed
qed

lemma loop_exec_append: "loop_exec t (rs @ rs') = loop_exec (loop_exec t rs) rs'"
proof (induction rs arbitrary: t)
  case Nil
  then show ?case by simp
next
  case (Cons r rs)
  then show ?case by (cases "in_loop t") (simp_all add: loop_exec_outside)
qed

text \<open>
  C3. In one acquisition attempt the thread makes at most 2 non-blocking probes. The
  attempt starts with \<open>triesLeft = 2\<close> (line 61); whatever the calls return, the
  \<open>pthread_mutex_trylock\<close> calls of the attempt number at most 2, the counter never rises
  while the attempt lasts, and once 2 probes have been made every secondary attempt is the
  blocking \<open>pthread_mutex_lock\<close>.
\<close>

theorem bounded_probes:
  assumes "pc t = Log_hungry"
  shows "triesLeft (resume t a) = 2 \<and>
    probes (loop_run (resume t a) rs) \<le> 2 \<and>
    triesLeft (loop_exec (resume t a) rs) \<le> 2 \<and>
    triesLeft (loop_exec (resume t a) (rs @ rs')) \<le> triesLeft (loop_exec (resume t a) rs) \<and>
    (probes (loop_run (resume t a) rs) = 2 \<and>
     pc (loop_exec (resume t a) rs) = Attempt_secondary \<longrightarrow>
       call_of (loop_exec (resume t a) rs) =
         Some (Mutex_lock (forkRight' (loop_exec (resume t a) rs))))"
proof -
  define t0 where "t0 = resume t a"
  have t0: "pc t0 = Lock_primary" "triesLeft t0 = 2"
    using assms by (simp_all add: t0_def resume_def)
  have pl: "probes_left t0 = 2" using t0 by (simp add: probes_left_def)
  have b: "probes (loop_run t0 rs) + probes_left (loop_exec t0 rs) \<le> 2"
    using probes_loop [of t0 rs] pl by simp
  have m: "triesLeft (loop_exec t0 (rs @ rs')) \<le> triesLeft (loop_exec t0 rs)"
    using triesLeft_loop [of "loop_exec t0 rs" rs'] by (simp add: loop_exec_append)
  have u: "triesLeft (loop_exec t0 rs) \<le> 2"
    using triesLeft_loop [of t0 rs] t0 by simp
  have f: "call_of (loop_exec t0 rs) = Some (Mutex_lock (forkRight' (loop_exec t0 rs)))"
    if "probes (loop_run t0 rs) = 2" "pc (loop_exec t0 rs) = Attempt_secondary"
  proof -
    have "probes_left (loop_exec t0 rs) = 0" using b that(1) by simp
    then have "triesLeft (loop_exec t0 rs) \<le> 0"
      using that(2) by (simp add: probes_left_def)
    then show ?thesis using that(2) by (simp add: call_of_def)
  qed
  show ?thesis using t0 b m u f unfolding t0_def by auto
qed

theorem bounded_probes_witness:
  "pc (resume (socrates\<lparr>pc := Sleep_think\<rparr>) 0) = Log_hungry \<and>
   probes (loop_run (resume (resume (socrates\<lparr>pc := Sleep_think\<rparr>) 0) 0)
     [0, 0, 16, 0, 0, 0, 0, 0, 0, 16, 0, 0, 0, 0, 0, 0]) = 2 \<and>
   pc (loop_exec (resume (resume (socrates\<lparr>pc := Sleep_think\<rparr>) 0) 0)
     [0, 0, 16, 0, 0, 0, 0, 0, 0, 16, 0, 0, 0, 0, 0, 0]) = Attempt_secondary \<and>
   call_of (loop_exec (resume (resume (socrates\<lparr>pc := Sleep_think\<rparr>) 0) 0)
     [0, 0, 16, 0, 0, 0, 0, 0, 0, 16, 0, 0, 0, 0, 0, 0]) = Some (Mutex_lock 1)"
proof -
  let ?t = "resume (socrates\<lparr>pc := Sleep_think\<rparr>) 0"
  let ?rs = "[0, 0, 16, 0, 0, 0, 0, 0, 0, 16, 0, 0, 0, 0, 0, 0] :: int list"
  have p: "pc ?t = Log_hungry" by (simp add: resume_def)
  have n: "probes (loop_run (resume (?t) 0) ?rs) = 2" by code_simp
  have a: "pc (loop_exec (resume (?t) 0) ?rs) = Attempt_secondary" by code_simp
  have r: "forkRight' (loop_exec (resume (?t) 0) ?rs) = 1" by code_simp
  have c: "call_of (loop_exec (resume (?t) 0) ?rs) = Some (Mutex_lock 1)"
    using bounded_probes [OF p, of 0 ?rs "[]"] n a unfolding r by blast
  show ?thesis
    by (intro conjI) (rule p n a c)+
qed

subsection \<open>Eating\<close>








subsection \<open>What the thread holds\<close>

lemma exec_Returned: "pc t = Returned \<Longrightarrow> exec t rs = t"
  by (induction rs) (simp_all add: resume_def)

lemma call_of_None: "(call_of t = None) = (pc t = Returned)"
  by (cases "pc t") (simp_all add: call_of_def)

lemma hold_within:
  "call_of t = Some c \<Longrightarrow> H \<subseteq> may_hold t \<Longrightarrow> hold H (c, r) \<subseteq> may_hold (resume t r)"
proof (cases "pc t")
  case Attempt_secondary
  assume "call_of t = Some c" "H \<subseteq> may_hold t"
  with Attempt_secondary show ?thesis
    by (cases "0 < triesLeft t") (auto simp: call_of_def resume_def may_hold_def)
qed (auto simp: call_of_def resume_def may_hold_def split: if_splits)

lemma held_within: "H \<subseteq> may_hold t \<Longrightarrow> held H (run t rs) \<subseteq> may_hold (exec t rs)"
proof (induction rs arbitrary: t H)
  case Nil
  then show ?case by simp
next
  case (Cons r rs)
  show ?case
  proof (cases "call_of t")
    case None
    then have "pc t = Returned" by (simp add: call_of_None)
    then have "exec t (r # rs) = t" by (rule exec_Returned)
    with None Cons.prems show ?thesis by simp
  next
    case (Some c)
    have "hold H (c, r) \<subseteq> may_hold (resume t r)"
      using Some Cons.prems by (rule hold_within)
    then have "held (hold H (c, r)) (run (resume t r) rs) \<subseteq> may_hold (exec (resume t r) rs)"
      by (rule Cons.IH)
    with Some show ?thesis by simp
  qed
qed

text \<open>
  C9. On every path on which the thread returns it holds no mutex at that moment; nor does
  it hold one when the loop condition of line 79 is re-checked after a failed attempt, or
  at the cycle check of line 53.
\<close>

theorem returns_empty_handed:
  assumes "pc t = While_check"
    and "pc (exec t rs) = Returned \<or> pc (exec t rs) = Do_while_check \<or> pc (exec t rs) = While_check"
  shows "held {} (run t rs) = {}"
proof -
  have "held {} (run t rs) \<subseteq> may_hold (exec t rs)"
    by (rule held_within) simp
  moreover have "may_hold (exec t rs) = {}"
    using assms(2) by (auto simp: may_hold_def)
  ultimately show ?thesis by simp
qed

theorem returns_empty_handed_witness:
  "pc socrates = While_check \<and>
   pc (exec socrates [0, 0, 5, 0, 0, 0, 0, 16, 0, 0, 0, 1, 1]) = Returned \<and>
   held {} (run socrates [0, 0, 5, 0, 0, 0, 0, 16, 0, 0, 0, 1, 1]) = {}"
proof -
  have p: "pc socrates = While_check" by code_simp
  have e: "pc (exec socrates [0, 0, 5, 0, 0, 0, 0, 16, 0, 0, 0, 1, 1]) = Returned" by code_simp
  have h: "held {} (run socrates [0, 0, 5, 0, 0, 0, 0, 16, 0, 0, 0, 1, 1]) = {}"
    using returns_empty_handed [OF p, of "[0, 0, 5, 0, 0, 0, 0, 16, 0, 0, 0, 1, 1]"] e by blast
  show ?thesis
    by (intro conjI) (rule p e h)+
qed

text \<open>
  C10. The value the blocking acquire of the primary returns is discarded: line 67
  overwrites \<open>failed\<close>, so the state after the secondary attempt does not depend on it.
  When the primary acquire returns an error \<open>e\<close> and the secondary attempt returns 0, the
  thread goes on to eat holding the secondary only, and later releases the primary it never
  acquired. It holds both at that point where the primary acquire returned 0.
\<close>

theorem primary_result_discarded:
  assumes "pc t = Lock_primary" and "e \<noteq> 0"
  shows "exec t [e, a, r] = exec t [0, a, r] \<and>
    failed (exec t [e, a, r]) = r \<and>
    pc (exec t [e, a, 0, b]) = Set_eating \<and>
    held {} (run t [e, a, 0, b]) = {forkRight' t} \<and>
    held {} (run t [0, a, 0, b]) = {forkLeft' t, forkRight' t} \<and>
    run (exec t [e, a, 0, b]) [c, d, y, g, h, i, j, u, v] =
      [(Write_isEating 1, c),
       (Write_platesCounter (add32 (platesCounter (phil t)) 1), d),
       (Read_gpio, y),
       (GPIO_SetValue y GPIO_Value_Low, g),
       (Log_Debug (Is_eating (name (phil t))), h),
       (Rand, i),
       (Nanosleep (1 + i smod 8), j),
       (Mutex_unlock (forkRight' t), u),
       (Mutex_unlock (forkLeft' t), v)]"
  using assms
  by (cases "0 < triesLeft t") (simp_all add: call_of_def resume_def insert_commute)

theorem primary_result_discarded_witness:
  "pc socrates_hungry = Lock_primary \<and> (22 :: int) \<noteq> 0 \<and>
   pc (exec socrates_hungry [22, 0, 0, 0]) = Set_eating \<and>
   held {} (run socrates_hungry [22, 0, 0, 0]) = {1} \<and>
   run (exec socrates_hungry [22, 0, 0, 0]) [0, 0, 10, 0, 0, 3, 0, 0, 0] =
     [(Write_isEating 1, 0), (Write_platesCounter 1, 0), (Read_gpio, 10),
      (GPIO_SetValue 10 GPIO_Value_Low, 0),
      (Log_Debug (Is_eating ''Socrates''), 0), (Rand, 3), (Nanosleep 4, 0),
      (Mutex_unlock 1, 0), (Mutex_unlock 0, 0)]"
proof -
  have p: "pc socrates_hungry = Lock_primary" by code_simp
  have n: "(22 :: int) \<noteq> 0" by simp
  have v: "name (phil socrates_hungry) = ''Socrates''"
    "add32 (platesCounter (phil socrates_hungry)) 1 = 1"
    "forkRight' socrates_hungry = 1" "forkLeft' socrates_hungry = 0"
    "(1 :: int) + 3 smod 8 = 4"
    by code_simp+
  note th = primary_result_discarded [OF p n, of 0 0 0 0 0 10 0 0 3 0 0 0, unfolded v]
  have e: "pc (exec socrates_hungry [22, 0, 0, 0]) = Set_eating" using th by blast
  have h: "held {} (run socrates_hungry [22, 0, 0, 0]) = {1}" using th by blast
  have r: "run (exec socrates_hungry [22, 0, 0, 0]) [0, 0, 10, 0, 0, 3, 0, 0, 0] =
     [(Write_isEating 1, 0), (Write_platesCounter 1, 0), (Read_gpio, 10),
      (GPIO_SetValue 10 GPIO_Value_Low, 0),
      (Log_Debug (Is_eating ''Socrates''), 0), (Rand, 3), (Nanosleep 4, 0),
      (Mutex_unlock 1, 0), (Mutex_unlock 0, 0)]"
    using th by blast
  show ?thesis
    by (intro conjI) (rule p n e h r)+
qed

subsection \<open>The indicator\<close>

lemma resume_gpio:
  "pc t = Gpio_busy \<or> pc t = Gpio_idle \<Longrightarrow> resume t r = resume t r'"
  by (auto simp: resume_def)

lemma differ_at_gpio_same:
  "differ_at_gpio t rs rs' \<Longrightarrow> map fst (run t rs) = map fst (run t rs') \<and> exec t rs = exec t rs'"
proof (induction t rs rs' rule: differ_at_gpio.induct)
  case (1 t)
  then show ?case by simp
next
  case (2 t r rs r' rs')
  then have d: "r = r' \<or> pc t = Gpio_busy \<or> pc t = Gpio_idle"
    and rest: "differ_at_gpio (resume t r) rs rs'" by simp_all
  have same: "resume t r = resume t r'"
    using d resume_gpio [of t r r'] by auto
  have IH: "map fst (run (resume t r) rs) = map fst (run (resume t r) rs') \<and>
      exec (resume t r) rs = exec (resume t r) rs'"
    using "2.IH" rest by simp
  show ?case
    using IH same by (cases "call_of t") simp_all
qed simp_all

lemma logged_calls: "logged es = concat (map (\<lambda>c. case c of Log_Debug m \<Rightarrow> [m] | _ \<Rightarrow> []) (map fst es))"
  by (simp add: logged_def comp_def)

text \<open>
  C8, as the code has it. What \<open>GPIO_SetValue\<close> returns is ignored without a log message:
  two runs that differ only in the values \<open>GPIO_SetValue\<close> returned make the same calls,
  log the same messages and reach the same state, and the thread goes on to its next line
  after either call.
\<close>

theorem gpio_failure_ignored:
  assumes "differ_at_gpio t rs rs'"
  shows "map fst (run t rs) = map fst (run t rs') \<and>
    logged (run t rs) = logged (run t rs') \<and>
    exec t rs = exec t rs' \<and>
    (pc t = Gpio_busy \<longrightarrow> pc (resume t r) = Log_eating) \<and>
    (pc t = Gpio_idle \<longrightarrow> pc (resume t r) = While_check)"
proof -
  have s: "map fst (run t rs) = map fst (run t rs')" "exec t rs = exec t rs'"
    using differ_at_gpio_same [OF assms] by simp_all
  have "logged (run t rs) = logged (run t rs')"
    using s(1) by (simp only: logged_calls)
  then show ?thesis using s by (simp add: resume_def)
qed

theorem gpio_failure_ignored_witness:
  "differ_at_gpio socrates_eating [- 1, 0, 0, 0, 0, 0, 0, 10, - 1, 0, 0] [0, 0, 0, 0, 0, 0, 0, 10, 0, 0, 0] \<and>
   exec socrates_eating [- 1, 0, 0, 0, 0, 0, 0, 10, - 1, 0, 0] =
   exec socrates_eating [0, 0, 0, 0, 0, 0, 0, 10, 0, 0, 0] \<and>
   map fst (run socrates_eating [- 1, 0, 0, 0, 0, 0, 0, 10, - 1, 0, 0]) =
   map fst (run socrates_eating [0, 0, 0, 0, 0, 0, 0, 10, 0, 0, 0])"
proof -
  have d: "differ_at_gpio socrates_eating [- 1, 0, 0, 0, 0, 0, 0, 10, - 1, 0, 0]
      [0, 0, 0, 0, 0, 0, 0, 10, 0, 0, 0]"
    by code_simp
  note th = gpio_failure_ignored [OF d, of 0]
  have e: "exec socrates_eating [- 1, 0, 0, 0, 0, 0, 0, 10, - 1, 0, 0] =
      exec socrates_eating [0, 0, 0, 0, 0, 0, 0, 10, 0, 0, 0]"
    using th by blast
  have m: "map fst (run socrates_eating [- 1, 0, 0, 0, 0, 0, 0, 10, - 1, 0, 0]) =
      map fst (run socrates_eating [0, 0, 0, 0, 0, 0, 0, 10, 0, 0, 0])"
    using th by blast
  show ?thesis
    by (intro conjI) (rule d e m)+
qed

text \<open>
  C8 as stated fails: where both \<open>GPIO_SetValue\<close> calls of a meal return -1, the messages
  logged are the two the run without failure logs, and no call reports the failure.
\<close>

theorem gpio_failure_logged_counterexample:
  "map fst (run socrates_eating [- 1, 0, 0, 0, 0, 0, 0, 10, - 1, 0, 0]) =
     [GPIO_SetValue 10 GPIO_Value_Low, Log_Debug (Is_eating ''Socrates''), Rand, Nanosleep 1,
      Mutex_unlock 1, Mutex_unlock 0, Write_isEating 0, Read_gpio,
      GPIO_SetValue 10 GPIO_Value_High,
      Read_terminationRequired, Log_Debug (Is_thinking ''Socrates'')] \<and>
   logged (run socrates_eating [- 1, 0, 0, 0, 0, 0, 0, 10, - 1, 0, 0]) =
     [Is_eating ''Socrates'', Is_thinking ''Socrates''] \<and>
   logged (run socrates_eating [0, 0, 0, 0, 0, 0, 0, 10, 0, 0, 0]) =
     [Is_eating ''Socrates'', Is_thinking ''Socrates'']"
  by code_simp

section \<open>Properties of main\<close>

subsection \<open>Exit status\<close>

lemma main_exec_halted:
  "main_call_of m = None \<Longrightarrow> main_exec m rs = m"
proof (induction rs)
  case Nil
  then show ?case by simp
next
  case (Cons r rs)
  then have "main_resume m r = m"
    by (cases "mpc m") (simp_all add: main_call_of_def main_resume_def)
  with Cons show ?case by simp
qed

lemma main_run_halted: "main_call_of m = None \<Longrightarrow> main_run m rs = []"
  by (cases rs) simp_all

text \<open>After the failure log the process has exited with status 1.\<close>

lemma after_failure:
  assumes "mpc m = M_Log_failed_mutexes \<or> mpc m = M_Log_failed_thread"
  shows "(main_run m rs = [] \<or> (\<exists>x. main_run m rs = [(Log_Debug Failed_mutexes, x)]) \<or>
          (\<exists>x n. main_run m rs = [(Log_Debug (Failed_thread n), x)])) \<and>
         (rs \<noteq> [] \<longrightarrow> exit_status (main_exec m rs) = Some 1)"
proof (cases rs)
  case Nil
  then show ?thesis by simp
next
  case (Cons x xs)
  have h: "main_call_of (main_resume m x) = None" "exit_status (main_resume m x) = Some 1"
    using assms by (auto simp: main_call_of_def main_resume_def exit_status_def)
  have "main_run (main_resume m x) xs = []" "main_exec (main_resume m x) xs = main_resume m x"
    using h(1) by (simp_all add: main_run_halted main_exec_halted)
  with Cons h(2) assms show ?thesis
    by (auto simp: main_call_of_def)
qed

lemma startup_failure:
  "main_run m rs = pre @ (c, r) # post \<Longrightarrow> is_startup_call c \<Longrightarrow> r \<noteq> 0 \<Longrightarrow>
   (post = [] \<or> (\<exists>x. post = [(Log_Debug Failed_mutexes, x)]) \<or>
    (\<exists>x n. post = [(Log_Debug (Failed_thread n), x)])) \<and>
   (length pre + 1 < length rs \<longrightarrow> exit_status (main_exec m rs) = Some 1)"
proof (induction rs arbitrary: m pre)
  case Nil
  then show ?case by simp
next
  case (Cons r0 rs)
  from Cons.prems(1) obtain c0 where c0: "main_call_of m = Some c0"
    and run: "(c0, r0) # main_run (main_resume m r0) rs = pre @ (c, r) # post"
    by (cases "main_call_of m") simp_all
  show ?case
  proof (cases pre)
    case Nil
    with run have eq: "c0 = c" "r0 = r" "main_run (main_resume m r) rs = post" by auto
    have "mpc m = M_Mutex_init \<or> mpc m = M_Pthread_create"
      using c0 eq(1) Cons.prems(2)
      by (cases "mpc m") (auto simp: main_call_of_def)
    then have "mpc (main_resume m r) = M_Log_failed_mutexes \<or>
        mpc (main_resume m r) = M_Log_failed_thread"
      using Cons.prems(3) by (auto simp: main_resume_def Let_def)
    from after_failure [OF this, of rs] eq Nil show ?thesis by auto
  next
    case (Cons e pre')
    with run have "main_run (main_resume m r0) rs = pre' @ (c, r) # post" by simp
    from Cons.IH [OF this Cons.prems(2,3)] Cons show ?thesis by simp
  qed
qed

lemma after_cancellation:
  assumes "mpc m = M_Log_exiting"
  shows "(main_run m rs = [] \<or> (\<exists>x. main_run m rs = [(Log_Debug Exiting, x)])) \<and>
         (rs \<noteq> [] \<longrightarrow> exit_status (main_exec m rs) = Some 0)"
proof (cases rs)
  case Nil
  then show ?thesis by simp
next
  case (Cons x xs)
  have h: "main_call_of (main_resume m x) = None" "exit_status (main_resume m x) = Some 0"
    using assms by (auto simp: main_call_of_def main_resume_def exit_status_def)
  have "main_run (main_resume m x) xs = []" "main_exec (main_resume m x) xs = main_resume m x"
    using h(1) by (simp_all add: main_run_halted main_exec_halted)
  with Cons h(2) assms show ?thesis
    by (auto simp: main_call_of_def)
qed

lemma cancellation_seen:
  "main_run m rs = pre @ (Read_terminationRequired, r) # post \<Longrightarrow> r \<noteq> 0 \<Longrightarrow>
   (post = [] \<or> (\<exists>x. post = [(Log_Debug Exiting, x)])) \<and>
   (length pre + 1 < length rs \<longrightarrow> exit_status (main_exec m rs) = Some 0)"
proof (induction rs arbitrary: m pre)
  case Nil
  then show ?case by simp
next
  case (Cons r0 rs)
  from Cons.prems(1) obtain c0 where c0: "main_call_of m = Some c0"
    and run: "(c0, r0) # main_run (main_resume m r0) rs = pre @ (Read_terminationRequired, r) # post"
    by (cases "main_call_of m") simp_all
  show ?case
  proof (cases pre)
    case Nil
    with run have eq: "c0 = Read_terminationRequired" "r0 = r"
      "main_run (main_resume m r) rs = post" by auto
    have "mpc m = M_While_check"
      using c0 eq(1) by (cases "mpc m") (auto simp: main_call_of_def)
    then have "mpc (main_resume m r) = M_Log_exiting"
      using Cons.prems(2) by (auto simp: main_resume_def)
    from after_cancellation [OF this, of rs] eq Nil show ?thesis by auto
  next
    case (Cons e pre')
    with run have "main_run (main_resume m r0) rs = pre' @ (Read_terminationRequired, r) # post"
      by simp
    from Cons.IH [OF this Cons.prems(2)] Cons show ?thesis by simp
  qed
qed

text \<open>A startup call that failed is not followed by a read of the flag.\<close>

lemma startup_before_loop:
  assumes "main_run m rs = pre @ (Read_terminationRequired, r) # post"
    and "e \<in> set pre" and "is_startup_call (fst e)"
  shows "snd e = 0"
proof (rule ccontr)
  assume n: "snd e \<noteq> 0"
  from assms(2) obtain p1 p2 where pre: "pre = p1 @ e # p2"
    by (auto simp: in_set_conv_decomp)
  have "main_run m rs = p1 @ (fst e, snd e) # (p2 @ (Read_terminationRequired, r) # post)"
    using assms(1) pre by simp
  from startup_failure [OF this assms(3) n]
  show False by (cases p2) auto
qed


subsection \<open>main and the signal\<close>

lemma handler_sets_flag:
  "terminationRequired (TerminationHandler p) = 1"
  "controller (TerminationHandler p) = controller p"
  by (simp_all add: TerminationHandler_def)

lemma process_run_append:
  "process_run p (xs @ ys) = process_run (process_run p xs) ys"
  by (induction xs arbitrary: p) simp_all

lemma process_step_flag:
  "terminationRequired p \<noteq> 0 \<Longrightarrow> terminationRequired (process_step p mv) \<noteq> 0"
  by (cases mv) (simp_all add: process_step_def TerminationHandler_def)

lemma calls_to_return_le: "calls_to_return m \<le> 26"
  by (cases "mpc m") (simp_all add: calls_to_return_def)

lemma countdown:
  assumes "started m" and "main_call_of m = Some Read_terminationRequired \<longrightarrow> r \<noteq> 0"
  shows "started (main_resume m r) \<and>
    calls_to_return (main_resume m r) = calls_to_return m - 1"
  using assms
  by (cases "mpc m")
    (auto simp: started_def main_resume_def main_call_of_def calls_to_return_def)

lemma countdown_done: "started m \<Longrightarrow> calls_to_return m = 0 \<Longrightarrow> mpc m = M_Returned"
  by (cases "mpc m") (simp_all add: started_def calls_to_return_def)

lemma flag_set_returns:
  "started (controller p) \<Longrightarrow> terminationRequired p \<noteq> 0 \<Longrightarrow>
   calls_to_return (controller p) \<le> calls mvs \<Longrightarrow>
   mpc (controller (process_run p mvs)) = M_Returned"
proof (induction mvs arbitrary: p)
  case Nil
  then show ?case by (simp add: countdown_done)
next
  case (Cons mv mvs)
  show ?case
  proof (cases mv)
    case Signal
    have "mpc (controller (process_run (TerminationHandler p) mvs)) = M_Returned"
      using Cons.prems Signal by (intro Cons.IH) (simp_all add: handler_sets_flag)
    then show ?thesis using Signal by (simp add: process_step_def)
  next
    case (Call r)
    let ?r = "if main_call_of (controller p) = Some Read_terminationRequired
      then terminationRequired p else r"
    let ?p = "p\<lparr>controller := main_resume (controller p) ?r\<rparr>"
    have c: "started (main_resume (controller p) ?r) \<and>
        calls_to_return (main_resume (controller p) ?r) = calls_to_return (controller p) - 1"
      using Cons.prems(1,2) by (intro countdown) simp_all
    have "mpc (controller (process_run ?p mvs)) = M_Returned"
      using Cons.prems c Call by (intro Cons.IH) simp_all
    then show ?thesis using Call by (simp add: process_step_def)
  qed
qed

lemma signal_returns:
  assumes "started (controller (process_run p pre))" and "26 \<le> calls post"
  shows "exit_status (controller (process_run p (pre @ Signal # post))) = Some 0"
proof -
  let ?q = "TerminationHandler (process_run p pre)"
  have "calls_to_return (controller ?q) \<le> calls post"
    using calls_to_return_le [of "controller ?q"] assms(2) by simp
  then have "mpc (controller (process_run ?q post)) = M_Returned"
    using assms(1) by (intro flag_set_returns) (simp_all add: handler_sets_flag)
  then show ?thesis
    by (simp add: process_run_append process_step_def exit_status_def)
qed

lemma no_signal_step:
  assumes "terminationRequired p = 0" and "mpc (controller p) \<noteq> M_Log_exiting"
    and "mpc (controller p) \<noteq> M_Returned"
  shows "terminationRequired (process_step p (Call r)) = 0 \<and>
    mpc (controller (process_step p (Call r))) \<noteq> M_Log_exiting \<and>
    mpc (controller (process_step p (Call r))) \<noteq> M_Returned"
  using assms
  by (cases "mpc (controller p)")
    (auto simp: process_step_def main_resume_def main_call_of_def Let_def)

lemma no_signal_no_return:
  "terminationRequired p = 0 \<Longrightarrow> mpc (controller p) \<noteq> M_Log_exiting \<Longrightarrow>
   mpc (controller p) \<noteq> M_Returned \<Longrightarrow> Signal \<notin> set mvs \<Longrightarrow>
   mpc (controller (process_run p mvs)) \<noteq> M_Returned"
proof (induction mvs arbitrary: p)
  case Nil
  then show ?case by simp
next
  case (Cons mv mvs)
  then obtain r where mv: "mv = Call r" by (cases mv) auto
  from no_signal_step [OF Cons.prems(1-3), of r] Cons.prems(4)
  have "mpc (controller (process_run (process_step p (Call r)) mvs)) \<noteq> M_Returned"
    by (intro Cons.IH) simp_all
  then show ?case using mv by simp
qed

lemma only_signal_returns:
  "Signal \<notin> set mvs \<Longrightarrow> exit_status (controller (process_run process_start mvs)) \<noteq> Some 0"
  using no_signal_no_return [of process_start mvs]
  by (auto simp: process_start_def main_start_def exit_status_def split: main_pc.splits)


text \<open>
  C6. In every run of \<open>main\<close>: a \<open>pthread_mutex_init\<close> or \<open>pthread_create\<close> that returns
  non-zero is followed by the failure message and nothing else (no second attempt, no
  further startup call), and the process has then exited with status 1; a read of the
  cancellation flag that finds it set comes after a startup in which every such call
  returned 0, is followed by the exit message only, and the process has then returned 0.
  With the flag and the signal: once the startup is behind \<open>main\<close>, wherever it is in its
  loop, the arrival of the signal makes it return 0 within its next 26 calls, whatever
  they return; and without the signal it never returns 0.
\<close>

theorem exit_status_of_main:
  "(main_run main_start rs = pre @ (c, r) # post \<and> is_startup_call c \<and> r \<noteq> 0 \<longrightarrow>
      (post = [] \<or> (\<exists>x. post = [(Log_Debug Failed_mutexes, x)]) \<or>
       (\<exists>x n. post = [(Log_Debug (Failed_thread n), x)])) \<and>
      (length pre + 1 < length rs \<longrightarrow> exit_status (main_exec main_start rs) = Some 1)) \<and>
   (main_run main_start rs = pre @ (Read_terminationRequired, r) # post \<and> r \<noteq> 0 \<longrightarrow>
      (\<forall>e \<in> set pre. is_startup_call (fst e) \<longrightarrow> snd e = 0) \<and>
      (post = [] \<or> (\<exists>x. post = [(Log_Debug Exiting, x)])) \<and>
      (length pre + 1 < length rs \<longrightarrow> exit_status (main_exec main_start rs) = Some 0)) \<and>
   (started (controller (process_run process_start before)) \<and> 26 \<le> calls after \<longrightarrow>
      exit_status (controller (process_run process_start (before @ Signal # after))) = Some 0) \<and>
   (Signal \<notin> set mvs \<longrightarrow>
      exit_status (controller (process_run process_start mvs)) \<noteq> Some 0)"
  using startup_failure [of main_start rs pre c r post]
    cancellation_seen [of main_start rs pre r post]
    startup_before_loop [of main_start rs pre r post]
    signal_returns [of process_start before after]
    only_signal_returns [of mvs]
  by blast

theorem exit_status_of_main_witness:
  "main_run main_start init_fails =
     [(Log_Debug Starting, 0), (Sigaction, 0), (GPIO_OpenAsOutput 0, 10),
      (GPIO_OpenAsOutput 1, 11), (GPIO_OpenAsOutput 2, 12), (GPIO_OpenAsOutput 3, 13),
      (GPIO_OpenAsOutput 4, 14), (Mutex_init 0, 0), (Mutex_init 1, 0)] @
     (Mutex_init 2, 22) # [(Log_Debug Failed_mutexes, 0)] \<and>
   exit_status (main_exec main_start init_fails) = Some 1 \<and>
   main_run main_start create_fails =
     [(Log_Debug Starting, 0), (Sigaction, 0), (GPIO_OpenAsOutput 0, 10),
      (GPIO_OpenAsOutput 1, 11), (GPIO_OpenAsOutput 2, 12), (GPIO_OpenAsOutput 3, 13),
      (GPIO_OpenAsOutput 4, 14), (Mutex_init 0, 0), (Mutex_init 1, 0), (Mutex_init 2, 0),
      (Mutex_init 3, 0), (Mutex_init 4, 0), (Pthread_create 0, 0)] @
     (Pthread_create 1, 11) # [(Log_Debug (Failed_thread ''Plato''), 0)] \<and>
   exit_status (main_exec main_start create_fails) = Some 1 \<and>
   main_run main_start cancelled =
     [(Log_Debug Starting, 0), (Sigaction, 0), (GPIO_OpenAsOutput 0, 10),
      (GPIO_OpenAsOutput 1, 11), (GPIO_OpenAsOutput 2, 12), (GPIO_OpenAsOutput 3, 13),
      (GPIO_OpenAsOutput 4, 14), (Mutex_init 0, 0), (Mutex_init 1, 0), (Mutex_init 2, 0),
      (Mutex_init 3, 0), (Mutex_init 4, 0), (Pthread_create 0, 0), (Pthread_create 1, 0),
      (Pthread_create 2, 0), (Pthread_create 3, 0), (Pthread_create 4, 0)] @
     (Read_terminationRequired, 1) # [(Log_Debug Exiting, 0)] \<and>
   exit_status (main_exec main_start cancelled) = Some 0 \<and>
   mpc (controller process_monitoring) = M_Log_flag \<and>
   terminationRequired process_monitoring = 0 \<and>
   exit_status (controller (process_run process_monitoring (Signal # calls_26))) = Some 0 \<and>
   exit_status (controller (process_run process_monitoring calls_26)) = None \<and>
   Signal \<notin> set calls_26 \<and>
   exit_status (controller (process_run process_start calls_26)) \<noteq> Some 0"
proof -
  let ?p1 = "[(Log_Debug Starting, 0), (Sigaction, 0), (GPIO_OpenAsOutput 0, 10),
      (GPIO_OpenAsOutput 1, 11), (GPIO_OpenAsOutput 2, 12), (GPIO_OpenAsOutput 3, 13),
      (GPIO_OpenAsOutput 4, 14), (Mutex_init 0, 0), (Mutex_init 1, 0)] :: event list"
  let ?p2 = "[(Log_Debug Starting, 0), (Sigaction, 0), (GPIO_OpenAsOutput 0, 10),
      (GPIO_OpenAsOutput 1, 11), (GPIO_OpenAsOutput 2, 12), (GPIO_OpenAsOutput 3, 13),
      (GPIO_OpenAsOutput 4, 14), (Mutex_init 0, 0), (Mutex_init 1, 0), (Mutex_init 2, 0),
      (Mutex_init 3, 0), (Mutex_init 4, 0), (Pthread_create 0, 0)] :: event list"
  let ?p3 = "[(Log_Debug Starting, 0), (Sigaction, 0), (GPIO_OpenAsOutput 0, 10),
      (GPIO_OpenAsOutput 1, 11), (GPIO_OpenAsOutput 2, 12), (GPIO_OpenAsOutput 3, 13),
      (GPIO_OpenAsOutput 4, 14), (Mutex_init 0, 0), (Mutex_init 1, 0), (Mutex_init 2, 0),
      (Mutex_init 3, 0), (Mutex_init 4, 0), (Pthread_create 0, 0), (Pthread_create 1, 0),
      (Pthread_create 2, 0), (Pthread_create 3, 0), (Pthread_create 4, 0)] :: event list"
  let ?before = "map Call [0, 0, 10, 11, 12, 13, 14, 0, 0, 0, 0, 0, 0, 0, 0, 0, 0, 7, 0, 1]"
  have r1: "main_run main_start init_fails =
      ?p1 @ (Mutex_init 2, 22) # [(Log_Debug Failed_mutexes, 0)]"
    by code_simp
  have r2: "main_run main_start create_fails =
      ?p2 @ (Pthread_create 1, 11) # [(Log_Debug (Failed_thread ''Plato''), 0)]"
    by code_simp
  have r3: "main_run main_start cancelled =
      ?p3 @ (Read_terminationRequired, 1) # [(Log_Debug Exiting, 0)]"
    by code_simp
  have l1: "length ?p1 + 1 < length init_fails" by (simp add: init_fails_def)
  have l2: "length ?p2 + 1 < length create_fails" by (simp add: create_fails_def)
  have l3: "length ?p3 + 1 < length cancelled" by (simp add: cancelled_def)
  have s1: "is_startup_call (Mutex_init 2)" "(22 :: int) \<noteq> 0"
    and s2: "is_startup_call (Pthread_create 1)" "(11 :: int) \<noteq> 0"
    and s3: "(1 :: int) \<noteq> 0"
    by simp_all
  have e1: "exit_status (main_exec main_start init_fails) = Some 1"
    using exit_status_of_main [of init_fails ?p1 "Mutex_init 2" 22 "[(Log_Debug Failed_mutexes, 0)]"]
      r1 l1 s1 by blast
  have e2: "exit_status (main_exec main_start create_fails) = Some 1"
    using exit_status_of_main
      [of create_fails ?p2 "Pthread_create 1" 11 "[(Log_Debug (Failed_thread ''Plato''), 0)]"]
      r2 l2 s2 by blast
  have e3: "exit_status (main_exec main_start cancelled) = Some 0"
    using exit_status_of_main [of cancelled ?p3 _ 1 "[(Log_Debug Exiting, 0)]"]
      r3 l3 s3 by blast
  have m: "process_run process_start ?before = process_monitoring"
    by (simp only: process_monitoring_def)
  have pc: "mpc (controller process_monitoring) = M_Log_flag" by code_simp
  have fl: "terminationRequired process_monitoring = 0" by code_simp
  have st: "started (controller (process_run process_start ?before))"
    unfolding m by (simp add: started_def pc)
  have c26: "26 \<le> calls calls_26" by code_simp
  have "exit_status (controller (process_run process_start (?before @ Signal # calls_26))) = Some 0"
    using exit_status_of_main [of _ _ _ _ _ ?before calls_26] st c26 by blast
  then have e4: "exit_status (controller (process_run process_monitoring (Signal # calls_26))) = Some 0"
    unfolding process_run_append m .
  have e5: "exit_status (controller (process_run process_monitoring calls_26)) = None"
    by code_simp
  have n: "Signal \<notin> set calls_26" by (simp add: calls_26_def)
  have e6: "exit_status (controller (process_run process_start calls_26)) \<noteq> Some 0"
    using exit_status_of_main [of _ _ _ _ _ _ _ calls_26] n by blast
  show ?thesis
    by (intro conjI) (rule r1 e1 r2 e2 r3 e3 pc fl e4 e5 n e6)+
qed

subsection \<open>Wiring\<close>

lemma main_inv_start: "main_inv main_start"
  by (simp add: main_inv_def main_start_def started_def)

lemma wired_wire: "wired i ((wire p i)\<lparr>fail := r, gpio := g\<rparr>)"
  by (simp add: wired_def wire_def)

lemma main_inv_resume: "main_inv m \<Longrightarrow> main_inv (main_resume m r)"
proof (cases "mpc m")
  case M_Pthread_create
  assume inv: "main_inv m"
  then have i: "main_i m < 5" and len: "length (philosophers m) = 5"
    and w: "\<forall>j < main_i m. wired j (philosophers m ! j)"
    using M_Pthread_create by (simp_all add: main_inv_def)
  let ?ps = "(philosophers m)[main_i m :=
    (wire (philosophers m ! main_i m) (main_i m))\<lparr>fail := r, gpio := gpios m ! main_i m\<rparr>]"
  have w': "\<forall>j < main_i m + 1. wired j (?ps ! j)"
    using w i len wired_wire by (auto simp: nth_list_update less_Suc_eq)
  show ?thesis
  proof (cases "r \<noteq> 0")
    case True
    then show ?thesis using M_Pthread_create len
      by (simp add: main_inv_def main_resume_def started_def)
  next
    case False
    show ?thesis
    proof (cases "main_i m + 1 < 5")
      case True
      then show ?thesis using M_Pthread_create len w' False
        by (simp add: main_inv_def main_resume_def started_def)
    next
      case False
      then have "main_i m + 1 = 5" using i by simp
      then show ?thesis using M_Pthread_create len w' \<open>\<not> r \<noteq> 0\<close>
        by (simp add: main_inv_def main_resume_def started_def)
    qed
  qed
qed (auto simp: main_inv_def main_resume_def started_def)

lemma main_inv_exec: "main_inv m \<Longrightarrow> main_inv (main_exec m rs)"
  by (induction rs arbitrary: m) (simp_all add: main_inv_resume)

lemma phil_forks_resume:
  "forkLeft (phil (resume w r)) = forkLeft (phil w) \<and>
   forkRight (phil (resume w r)) = forkRight (phil w)"
  by (cases "pc w") (simp_all add: resume_def)

lemma phil_forks_exec:
  "forkLeft (phil (exec w ws)) = forkLeft (phil w) \<and>
   forkRight (phil (exec w ws)) = forkRight (phil w)"
  by (induction ws arbitrary: w) (simp_all add: phil_forks_resume)

lemma locals_wired_resume: "locals_wired w \<Longrightarrow> locals_wired (resume w r)"
  by (cases "pc w") (auto simp: locals_wired_def resume_def)

lemma locals_wired_call:
  "locals_wired w \<Longrightarrow> call_of w = Some c \<Longrightarrow> mutex_of c = Some f \<Longrightarrow>
   f = forkLeft (phil w) \<or> f = forkRight (phil w)"
  by (cases "pc w") (auto simp: locals_wired_def call_of_def doubleton_eq_iff split: if_splits)

lemma requests_wired:
  "locals_wired w \<Longrightarrow> e \<in> set (run w ws) \<Longrightarrow> mutex_of (fst e) = Some f \<Longrightarrow>
   f = forkLeft (phil w) \<or> f = forkRight (phil w)"
proof (induction ws arbitrary: w)
  case Nil
  then show ?case by simp
next
  case (Cons r ws)
  from Cons.prems(2) obtain c where c: "call_of w = Some c"
    and e: "e = (c, r) \<or> e \<in> set (run (resume w r) ws)"
    by (cases "call_of w") auto
  from e show ?case
  proof
    assume "e = (c, r)"
    with Cons.prems(1,3) c show ?thesis by (auto dest: locals_wired_call)
  next
    assume "e \<in> set (run (resume w r) ws)"
    from Cons.IH [OF locals_wired_resume [OF Cons.prems(1)] this Cons.prems(3)]
    show ?thesis by (simp add: phil_forks_resume)
  qed
qed

lemma below_5: "(n < 5) = (n = 0 \<or> n = 1 \<or> n = 2 \<or> n = 3 \<or> n = 4)"
  for n :: nat
  by auto

lemma neighbours:
  "f < 5 \<Longrightarrow> j < 5 \<Longrightarrow> (j = f \<or> (j + 1) mod 5 = f) = (j = f \<or> j = (f + 4) mod 5)"
  for f j :: nat
  unfolding below_5 by (elim disjE) simp_all

text \<open>
  C7. Once \<open>main\<close> has created the threads, philosopher \<open>i\<close> has \<open>forkLeft = &forks[i]\<close>
  and \<open>forkRight = &forks[(i + 1) % 5]\<close>, two different mutexes; mutex \<open>i\<close> is wired to
  exactly the two philosophers \<open>i\<close> and \<open>(i + 4) mod 5\<close>; no step of a thread changes the
  two fields of its struct; and every mutex call a thread makes is on one of the two.
\<close>

theorem ring_wiring:
  assumes "started (main_exec main_start rs)" and "i < 5"
  shows "forkLeft (philosophers (main_exec main_start rs) ! i) = i \<and>
    forkRight (philosophers (main_exec main_start rs) ! i) = (i + 1) mod 5 \<and>
    forkLeft (philosophers (main_exec main_start rs) ! i) \<noteq>
      forkRight (philosophers (main_exec main_start rs) ! i) \<and>
    {j. j < 5 \<and> (forkLeft (philosophers (main_exec main_start rs) ! j) = i \<or>
                  forkRight (philosophers (main_exec main_start rs) ! j) = i)} =
      {i, (i + 4) mod 5} \<and>
    i \<noteq> (i + 4) mod 5 \<and>
    forkLeft (phil (exec w ws)) = forkLeft (phil w) \<and>
    forkRight (phil (exec w ws)) = forkRight (phil w) \<and>
    (\<forall>e \<in> set (run (PhilPhunction p) ws). \<forall>f. mutex_of (fst e) = Some f \<longrightarrow>
       f = forkLeft p \<or> f = forkRight p)"
proof -
  let ?m = "main_exec main_start rs"
  have "main_inv ?m" using main_inv_start by (rule main_inv_exec)
  then have w: "\<forall>j < 5. wired j (philosophers ?m ! j)"
    using assms(1) by (simp add: main_inv_def)
  then have wi: "forkLeft (philosophers ?m ! i) = i" "forkRight (philosophers ?m ! i) = (i + 1) mod 5"
    using assms(2) by (simp_all add: wired_def)
  have ne: "i \<noteq> (i + 1) mod 5" "i \<noteq> (i + 4) mod 5" using assms(2) unfolding below_5 by (elim disjE; simp)+
  have s: "{j. j < 5 \<and> (forkLeft (philosophers ?m ! j) = i \<or> forkRight (philosophers ?m ! j) = i)} =
      {i, (i + 4) mod 5}"
  proof -
    have "{j. j < 5 \<and> (forkLeft (philosophers ?m ! j) = i \<or> forkRight (philosophers ?m ! j) = i)} =
        {j. j < 5 \<and> (j = i \<or> (j + 1) mod 5 = i)}"
      using w by (auto simp: wired_def)
    also have "\<dots> = {j. j < 5 \<and> (j = i \<or> j = (i + 4) mod 5)}"
      using neighbours [OF assms(2)] by auto
    also have "\<dots> = {i, (i + 4) mod 5}"
      using assms(2) by auto
    finally show ?thesis .
  qed
  have lw: "locals_wired (PhilPhunction p)"
    by (simp add: locals_wired_def PhilPhunction_def)
  have r: "\<forall>e \<in> set (run (PhilPhunction p) ws). \<forall>f. mutex_of (fst e) = Some f \<longrightarrow>
       f = forkLeft p \<or> f = forkRight p"
    using requests_wired [OF lw] by (auto simp: PhilPhunction_def)
  show ?thesis
    using wi ne s phil_forks_exec [of w ws] r by simp
qed

theorem ring_wiring_witness:
  "started (main_exec main_start cancelled) \<and> (4 :: nat) < 5 \<and>
   forkLeft (philosophers (main_exec main_start cancelled) ! 4) = 4 \<and>
   forkRight (philosophers (main_exec main_start cancelled) ! 4) = 0 \<and>
   {j. j < 5 \<and> (forkLeft (philosophers (main_exec main_start cancelled) ! j) = 4 \<or>
                 forkRight (philosophers (main_exec main_start cancelled) ! j) = 4)} = {4, 3}"
proof -
  have s: "started (main_exec main_start cancelled)" by code_simp
  have i: "(4 :: nat) < 5" by simp
  have v: "(4 + 1) mod 5 = (0 :: nat)" "(4 + 4) mod 5 = (3 :: nat)" by simp_all
  note th = ring_wiring [OF s i, of socrates "[]" "wire unset 0", unfolded v]
  have l: "forkLeft (philosophers (main_exec main_start cancelled) ! 4) = 4" using th by blast
  have r: "forkRight (philosophers (main_exec main_start cancelled) ! 4) = 0" using th by blast
  have n: "{j. j < 5 \<and> (forkLeft (philosophers (main_exec main_start cancelled) ! j) = 4 \<or>
                 forkRight (philosophers (main_exec main_start cancelled) ! j) = 4)} = {4, 3}"
    using th by blast
  show ?thesis
    by (intro conjI) (rule s i l r n)+
qed

subsection \<open>Stopping\<close>

lemma no_stop_call: "e \<in> set (main_run m rs) \<Longrightarrow> \<not> is_stop_call (fst e)"
proof (induction rs arbitrary: m)
  case Nil
  then show ?case by simp
next
  case (Cons r rs)
  from Cons.prems obtain c where c: "main_call_of m = Some c"
    and e: "e = (c, r) \<or> e \<in> set (main_run (main_resume m r) rs)"
    by (cases "main_call_of m") auto
  from e show ?case
  proof
    assume "e = (c, r)"
    with c show ?thesis
      by (cases "mpc m") (auto simp: main_call_of_def)
  next
    assume "e \<in> set (main_run (main_resume m r) rs)"
    then show ?thesis by (rule Cons.IH)
  qed
qed

text \<open>
  C4, as the code has it. The flag is set by the signal handler, which changes nothing
  else. When the loop of \<open>main\<close> reads the flag as set, \<open>main\<close> logs the exit message and
  returns 0. No run of \<open>main\<close> contains a \<open>pthread_join\<close>, a \<open>pthread_mutex_destroy\<close> or a
  \<open>pthread_mutex_unlock\<close>.
\<close>

theorem stop_sequence:
  "(\<forall>e \<in> set (main_run m rs). \<not> is_stop_call (fst e)) \<and>
   (mpc m = M_While_check \<and> r \<noteq> 0 \<longrightarrow>
      main_run m (r # x # rs) = [(Read_terminationRequired, r), (Log_Debug Exiting, x)] \<and>
      exit_status (main_exec m (r # x # rs)) = Some 0) \<and>
   terminationRequired (TerminationHandler s) = 1 \<and>
   forks (TerminationHandler s) = forks s \<and>
   diners (TerminationHandler s) = diners s"
proof -
  have a: "\<forall>e \<in> set (main_run m rs). \<not> is_stop_call (fst e)"
    using no_stop_call by blast
  have b: "main_run m (r # x # rs) = [(Read_terminationRequired, r), (Log_Debug Exiting, x)] \<and>
      exit_status (main_exec m (r # x # rs)) = Some 0"
    if "mpc m = M_While_check" "r \<noteq> 0"
  proof -
    have h: "main_call_of (main_resume (main_resume m r) x) = None"
      using that by (simp add: main_call_of_def main_resume_def)
    have "main_run (main_resume (main_resume m r) x) rs = []"
      "main_exec (main_resume (main_resume m r) x) rs = main_resume (main_resume m r) x"
      using h by (simp_all add: main_run_halted main_exec_halted)
    then show ?thesis using that
      by (simp add: main_call_of_def main_resume_def exit_status_def)
  qed
  show ?thesis using a b by (simp add: TerminationHandler_def)
qed

theorem stop_sequence_witness:
  "mpc main_started = M_While_check \<and> (1 :: int) \<noteq> 0 \<and>
   main_run main_started [1, 0] = [(Read_terminationRequired, 1), (Log_Debug Exiting, 0)] \<and>
   exit_status (main_exec main_started [1, 0]) = Some 0"
proof -
  have p: "mpc main_started = M_While_check" by code_simp
  have n: "(1 :: int) \<noteq> 0" by simp
  note th = stop_sequence [of main_started "[]" 1 0 table_start]
  have r: "main_run main_started [1, 0] = [(Read_terminationRequired, 1), (Log_Debug Exiting, 0)]"
    using th p n by blast
  have e: "exit_status (main_exec main_started [1, 0]) = Some 0"
    using th p n by blast
  show ?thesis
    by (intro conjI) (rule p n r e)+
qed

text \<open>
  C4 as stated fails: in the run where startup succeeds and the first read of the flag
  finds it set, the process returns 0 having joined no thread and released no mutex.
\<close>

theorem stop_sequence_joins_counterexample:
  "main_run main_start cancelled =
     [(Log_Debug Starting, 0), (Sigaction, 0), (GPIO_OpenAsOutput 0, 10),
      (GPIO_OpenAsOutput 1, 11), (GPIO_OpenAsOutput 2, 12), (GPIO_OpenAsOutput 3, 13),
      (GPIO_OpenAsOutput 4, 14), (Mutex_init 0, 0), (Mutex_init 1, 0), (Mutex_init 2, 0),
      (Mutex_init 3, 0), (Mutex_init 4, 0), (Pthread_create 0, 0), (Pthread_create 1, 0),
      (Pthread_create 2, 0), (Pthread_create 3, 0), (Pthread_create 4, 0),
      (Read_terminationRequired, 1), (Log_Debug Exiting, 0)] \<and>
   stop_calls (main_run main_start cancelled) = [] \<and>
   exit_status (main_exec main_start cancelled) = Some 0"
  by code_simp

section \<open>Properties of the five philosophers together\<close>

subsection \<open>What holds in every reachable state\<close>

lemma next_neq: "i < 5 \<Longrightarrow> (i + 1) mod 5 \<noteq> i" for i :: nat
  unfolding below_5 by (elim disjE) simp_all

lemma seated_resume:
  assumes "seated i t" and "i < 5" and "\<forall>f. call_of t = Some (Mutex_lock f) \<longrightarrow> r = 0"
  shows "seated i (resume t r)"
proof (cases "pc t")
  case Attempt_secondary
  then show ?thesis using assms
    by (cases "0 < triesLeft t")
      (auto simp: seated_def paired_def consistent_def resume_def call_of_def)
next
  case Unlock_primary
  then have "triesLeft t = 1 \<or> triesLeft t = 2"
    using assms(1) by (auto simp: seated_def paired_def)
  then show ?thesis using Unlock_primary assms(1)
    by (auto simp: seated_def paired_def consistent_def resume_def)
qed (use assms in \<open>auto simp: seated_def paired_def consistent_def resume_def\<close>)

lemma acquire_may_hold:
  assumes "seated i t" and "i < 5"
    and "call_of t = Some (Mutex_lock f) \<or> call_of t = Some (Mutex_trylock f)"
  shows "f \<notin> may_hold t \<and> f < 5 \<and> may_hold (resume t 0) = insert f (may_hold t)"
proof (cases "pc t")
  case Lock_primary
  then show ?thesis using assms
    by (auto simp: call_of_def resume_def may_hold_def seated_def paired_def split: if_splits)
next
  case Attempt_secondary
  then show ?thesis using assms next_neq [of i]
    by (auto simp: call_of_def resume_def may_hold_def seated_def paired_def split: if_splits)
qed (use assms in \<open>auto simp: call_of_def split: if_splits\<close>)

lemma busy_may_hold:
  assumes "call_of t = Some (Mutex_trylock f)"
  shows "may_hold (resume t EBUSY) = may_hold t"
  using assms
  by (cases "pc t") (auto simp: call_of_def resume_def may_hold_def EBUSY_def split: if_splits)

lemma release_may_hold:
  assumes "seated i t" and "i < 5" and "call_of t = Some (Mutex_unlock f)"
  shows "f \<in> may_hold t \<and> f < 5 \<and> may_hold (resume t r) = may_hold t - {f}"
proof (cases "pc t")
  case Unlock_primary
  then show ?thesis using assms
    by (auto simp: call_of_def resume_def may_hold_def seated_def paired_def split: if_splits)
next
  case Unlock_right
  then show ?thesis using assms next_neq [of i]
    by (auto simp: call_of_def resume_def may_hold_def seated_def paired_def split: if_splits)
next
  case Unlock_left
  then show ?thesis using assms
    by (auto simp: call_of_def resume_def may_hold_def seated_def paired_def split: if_splits)
qed (use assms in \<open>auto simp: call_of_def split: if_splits\<close>)

lemma silent_may_hold:
  assumes "seated i t" and "call_of t = Some c" and "mutex_of c = None"
  shows "may_hold (resume t r) = may_hold t"
  using assms
  by (cases "pc t")
    (auto simp: call_of_def resume_def may_hold_def seated_def consistent_def split: if_splits)

lemma table_inv_start: "table_inv table_start"
proof -
  have s: "seated i (PhilPhunction (wire unset i))" for i
    by (simp add: seated_def PhilPhunction_def wire_def consistent_def)
  have h: "may_hold (PhilPhunction p) = {}" for p
    by (simp add: may_hold_def PhilPhunction_def)
  show ?thesis
    unfolding table_inv_def table_start_def
    by (simp add: s h)
qed

lemma table_invI:
  "length (forks s) = 5 \<Longrightarrow> length (diners s) = 5 \<Longrightarrow>
   (\<And>j. j < 5 \<Longrightarrow> seated j (diners s ! j)) \<Longrightarrow>
   (\<And>g j. g < 5 \<Longrightarrow> j < 5 \<Longrightarrow> (forks s ! g = Some j) = (g \<in> may_hold (diners s ! j))) \<Longrightarrow>
   (\<And>g j. g < 5 \<Longrightarrow> forks s ! g = Some j \<Longrightarrow> j < 5) \<Longrightarrow>
   table_inv s"
  unfolding table_inv_def by blast

lemma table_invD:
  assumes "table_inv s"
  shows "length (forks s) = 5" and "length (diners s) = 5"
    and "\<And>j. j < 5 \<Longrightarrow> seated j (diners s ! j)"
    and "\<And>g j. g < 5 \<Longrightarrow> j < 5 \<Longrightarrow> (forks s ! g = Some j) = (g \<in> may_hold (diners s ! j))"
    and "\<And>g j. g < 5 \<Longrightarrow> forks s ! g = Some j \<Longrightarrow> j < 5"
  using assms unfolding table_inv_def by blast+

lemma inv_acquire:
  assumes inv: "table_inv s" and i: "i < 5"
    and call: "call_of (diners s ! i) = Some (Mutex_lock f) \<or>
               call_of (diners s ! i) = Some (Mutex_trylock f)"
    and free: "forks s ! f = None"
  shows "table_inv (s\<lparr>forks := (forks s)[f := Some i],
                      diners := (diners s)[i := resume (diners s ! i) 0]\<rparr>)"
proof -
  let ?t = "diners s ! i"
  note d = table_invD [OF inv]
  have st: "seated i ?t" using d(3) i by simp
  from acquire_may_hold [OF st i call]
  have f: "f < 5" and h: "may_hold (resume ?t 0) = insert f (may_hold ?t)" by simp_all
  have st': "seated i (resume ?t 0)" using st i by (rule seated_resume) simp
  show ?thesis
  proof (rule table_invI)
    fix j :: nat assume j: "j < 5"
    show "seated j (diners (s\<lparr>forks := (forks s)[f := Some i],
        diners := (diners s)[i := resume ?t 0]\<rparr>) ! j)"
      using d(3) [OF j] st' d(2) j by (cases "j = i") simp_all
  next
    fix g j :: nat assume g: "g < 5" and j: "j < 5"
    have o: "(forks s ! g = Some j) = (g \<in> may_hold (diners s ! j))" using d(4) g j .
    have nf: "g = f \<Longrightarrow> g \<notin> may_hold (diners s ! j)"
      using o free by simp
    show "(forks (s\<lparr>forks := (forks s)[f := Some i],
        diners := (diners s)[i := resume ?t 0]\<rparr>) ! g = Some j) =
      (g \<in> may_hold (diners (s\<lparr>forks := (forks s)[f := Some i],
        diners := (diners s)[i := resume ?t 0]\<rparr>) ! j))"
    proof (cases "j = i")
      case True
      then show ?thesis using o h f i d(1,2) by (cases "g = f") simp_all
    next
      case False
      then show ?thesis using o nf f j d(1,2) by (cases "g = f") simp_all
    qed
  next
    fix g j :: nat assume g: "g < 5"
      and "forks (s\<lparr>forks := (forks s)[f := Some i],
        diners := (diners s)[i := resume ?t 0]\<rparr>) ! g = Some j"
    then show "j < 5"
      using d(5) [OF g, of j] i d(1) f by (cases "g = f") simp_all
  qed (simp_all add: d(1,2))
qed

lemma inv_release:
  assumes inv: "table_inv s" and i: "i < 5"
    and call: "call_of (diners s ! i) = Some (Mutex_unlock f)"
  shows "table_inv (s\<lparr>forks := (forks s)[f := None],
                      diners := (diners s)[i := resume (diners s ! i) 0]\<rparr>)"
proof -
  let ?t = "diners s ! i"
  note d = table_invD [OF inv]
  have st: "seated i ?t" using d(3) i by simp
  from release_may_hold [OF st i call, of 0]
  have f: "f < 5" and fh: "f \<in> may_hold ?t"
    and h: "may_hold (resume ?t 0) = may_hold ?t - {f}" by simp_all
  have mine: "forks s ! f = Some i" using d(4) [OF f i] fh by simp
  have st': "seated i (resume ?t 0)" using st i by (rule seated_resume) (simp add: call)
  show ?thesis
  proof (rule table_invI)
    fix j :: nat assume j: "j < 5"
    show "seated j (diners (s\<lparr>forks := (forks s)[f := None],
        diners := (diners s)[i := resume ?t 0]\<rparr>) ! j)"
      using d(3) [OF j] st' d(2) j by (cases "j = i") simp_all
  next
    fix g j :: nat assume g: "g < 5" and j: "j < 5"
    have o: "(forks s ! g = Some j) = (g \<in> may_hold (diners s ! j))" using d(4) g j .
    have nf: "g = f \<Longrightarrow> j \<noteq> i \<Longrightarrow> g \<notin> may_hold (diners s ! j)"
      using o mine by simp
    show "(forks (s\<lparr>forks := (forks s)[f := None],
        diners := (diners s)[i := resume ?t 0]\<rparr>) ! g = Some j) =
      (g \<in> may_hold (diners (s\<lparr>forks := (forks s)[f := None],
        diners := (diners s)[i := resume ?t 0]\<rparr>) ! j))"
    proof (cases "j = i")
      case True
      then show ?thesis using o h f i d(1,2) by (cases "g = f") simp_all
    next
      case False
      then show ?thesis using o nf f j d(1,2) by (cases "g = f") simp_all
    qed
  next
    fix g j :: nat assume g: "g < 5"
      and "forks (s\<lparr>forks := (forks s)[f := None],
        diners := (diners s)[i := resume ?t 0]\<rparr>) ! g = Some j"
    then show "j < 5"
      using d(5) [OF g, of j] d(1) f by (cases "g = f") simp_all
  qed (simp_all add: d(1,2))
qed

lemma inv_silent:
  assumes inv: "table_inv s" and i: "i < 5"
    and st': "seated i t'" and h: "may_hold t' = may_hold (diners s ! i)"
  shows "table_inv (s\<lparr>diners := (diners s)[i := t']\<rparr>)"
proof -
  note d = table_invD [OF inv]
  show ?thesis
  proof (rule table_invI)
    fix j :: nat assume j: "j < 5"
    show "seated j (diners (s\<lparr>diners := (diners s)[i := t']\<rparr>) ! j)"
      using d(3) [OF j] st' d(2) j by (cases "j = i") simp_all
  next
    fix g j :: nat assume g: "g < 5" and j: "j < 5"
    show "(forks (s\<lparr>diners := (diners s)[i := t']\<rparr>) ! g = Some j) =
      (g \<in> may_hold (diners (s\<lparr>diners := (diners s)[i := t']\<rparr>) ! j))"
      using d(4) [OF g j] h d(2) j by (cases "j = i") simp_all
  next
    fix g j :: nat assume "g < 5" and "forks (s\<lparr>diners := (diners s)[i := t']\<rparr>) ! g = Some j"
    then show "j < 5" using d(5) [of g j] by simp
  qed (simp_all add: d(1,2))
qed

lemma inv_signal:
  assumes inv: "table_inv s"
  shows "table_inv (TerminationHandler s)"
proof -
  note d = table_invD [OF inv]
  show ?thesis
  proof (rule table_invI)
    fix j :: nat assume "j < 5"
    then show "seated j (diners (TerminationHandler s) ! j)"
      using d(3) by (simp add: TerminationHandler_def)
  next
    fix g j :: nat assume "g < 5" and "j < 5"
    then show "(forks (TerminationHandler s) ! g = Some j) =
        (g \<in> may_hold (diners (TerminationHandler s) ! j))"
      using d(4) by (simp add: TerminationHandler_def)
  next
    fix g j :: nat assume "g < 5" and "forks (TerminationHandler s) ! g = Some j"
    then show "j < 5" using d(5) [of g j] by (simp add: TerminationHandler_def)
  qed (simp_all add: TerminationHandler_def d(1,2))
qed

lemma step_other:
  "call_of (diners s ! i) = Some c \<Longrightarrow> mutex_of c = None \<Longrightarrow> i < length (diners s) \<Longrightarrow>
   step s (Step i r) =
     Some (s\<lparr>diners := (diners s)[i := resume (diners s ! i)
       (if c = Read_terminationRequired then terminationRequired s else r)]\<rparr>)"
  by (cases c) (simp_all add: step_def)

lemma table_inv_step:
  assumes inv: "table_inv s" and step: "step s mv = Some s'"
  shows "table_inv s'"
proof (cases mv)
  case SIGTERM
  then have "s' = TerminationHandler s"
    using step by (simp add: step_def)
  then show ?thesis using inv by (simp add: inv_signal)
next
  case (Step i r)
  note d = table_invD [OF inv]
  let ?t = "diners s ! i"
  from step Step have i: "i < 5"
    using d(2) by (simp add: step_def split: if_splits)
  have st: "seated i ?t" using d(3) i by simp
  from step Step i obtain c where c: "call_of ?t = Some c"
    using d(2) by (cases "call_of ?t") (simp_all add: step_def)
  show ?thesis
  proof (cases "mutex_of c")
    case None
    let ?r = "if c = Read_terminationRequired then terminationRequired s else r"
    have s': "s' = s\<lparr>diners := (diners s)[i := resume ?t ?r]\<rparr>"
      using step_other [OF c None, of r] step Step i d(2) by simp
    have "seated i (resume ?t ?r)"
      using st i by (rule seated_resume) (use c None in auto)
    moreover have "may_hold (resume ?t ?r) = may_hold ?t"
      using st c None by (rule silent_may_hold)
    ultimately show ?thesis unfolding s' using inv i by (intro inv_silent)
  next
    case (Some f)
    then consider "c = Mutex_lock f" | "c = Mutex_trylock f" | "c = Mutex_unlock f"
      by (cases c) simp_all
    then show ?thesis
    proof cases
      case 1
      with step Step i c d(1,2) have free: "forks s ! f = None"
        and s': "s' = s\<lparr>forks := (forks s)[f := Some i], diners := (diners s)[i := resume ?t 0]\<rparr>"
        by (simp_all add: step_def split: if_splits)
      show ?thesis unfolding s'
        using inv i _ free by (rule inv_acquire) (simp add: c 1)
    next
      case 2
      show ?thesis
      proof (cases "f < 5 \<and> forks s ! f = None")
        case True
        with step Step i c d(1,2) 2
        have s': "s' = s\<lparr>forks := (forks s)[f := Some i], diners := (diners s)[i := resume ?t 0]\<rparr>"
          by (simp add: step_def)
        show ?thesis unfolding s'
          using inv i _ True [THEN conjunct2] by (rule inv_acquire) (simp add: c 2)
      next
        case False
        with step Step i c d(1,2) 2
        have s': "s' = s\<lparr>diners := (diners s)[i := resume ?t EBUSY]\<rparr>"
          by (simp add: step_def)
        have "seated i (resume ?t EBUSY)"
          using st i by (rule seated_resume) (simp add: c 2)
        moreover have "may_hold (resume ?t EBUSY) = may_hold ?t"
          by (rule busy_may_hold) (simp add: c 2)
        ultimately show ?thesis unfolding s' using inv i by (intro inv_silent)
      qed
    next
      case 3
      with step Step i c d(1,2)
      have s': "s' = s\<lparr>forks := (forks s)[f := None], diners := (diners s)[i := resume ?t 0]\<rparr>"
        by (simp add: step_def)
      show ?thesis unfolding s'
        using inv i by (rule inv_release) (simp add: c 3)
    qed
  qed
qed

lemma reachable_inv: "reachable s \<Longrightarrow> table_inv s"
  by (induction rule: reachable.induct) (auto intro: table_inv_start table_inv_step)

subsection \<open>States in which nobody can move\<close>

lemma blocked_no_step: "blocked s i \<Longrightarrow> step s (Step i r) = None"
  by (auto simp: blocked_def step_def Let_def split: option.splits call.splits)

lemma stuck_diner:
  assumes "i < length (diners s)" and "step s (Step i r) = None"
  shows "pc (diners s ! i) = Returned \<or> blocked s i"
proof (cases "call_of (diners s ! i)")
  case None
  then show ?thesis by (cases "pc (diners s ! i)") (simp_all add: call_of_def)
next
  case (Some c)
  then show ?thesis using assms
    by (cases c) (simp_all add: step_def blocked_def Let_def split: if_splits)
qed

lemma blocked_where:
  assumes "seated i t" and "i < 5" and "call_of t = Some (Mutex_lock f)"
  shows "f < 5 \<and>
    (pc t = Lock_primary \<and> may_hold t = {} \<or>
     pc t = Attempt_secondary \<and> triesLeft t = 0 \<and> forkLeft' t = i \<and>
       forkRight' t = (i + 1) mod 5 \<and> f = (i + 1) mod 5 \<and> may_hold t = {i})"
proof (cases "pc t")
  case Lock_primary
  then show ?thesis using assms
    by (auto simp: call_of_def seated_def paired_def may_hold_def split: if_splits)
next
  case Attempt_secondary
  then have "triesLeft t = 0" using assms
    by (auto simp: call_of_def seated_def paired_def split: if_splits)
  then show ?thesis using Attempt_secondary assms
    by (auto simp: call_of_def seated_def paired_def may_hold_def)
qed (use assms in \<open>auto simp: call_of_def split: if_splits\<close>)

text \<open>In a state where nobody can move, a locked mutex is locked by its own philosopher,
  who sits in the fallback.\<close>

lemma holder_in_fallback:
  assumes inv: "table_inv s"
    and stuck: "\<forall>j<5. pc (diners s ! j) = Returned \<or> blocked s j"
    and f: "f < 5" and held: "forks s ! f = Some j"
  shows "j = f \<and> in_fallback s f"
proof -
  note d = table_invD [OF inv]
  have j: "j < 5" using d(5) [OF f held] .
  have m: "f \<in> may_hold (diners s ! j)" using d(4) [OF f j] held by simp
  then have "pc (diners s ! j) \<noteq> Returned" by (auto simp: may_hold_def)
  with stuck j have "blocked s j" by blast
  then obtain g where g: "call_of (diners s ! j) = Some (Mutex_lock g)"
    by (auto simp: blocked_def split: option.splits call.splits)
  from blocked_where [OF d(3) [OF j] j g] m
  have w: "pc (diners s ! j) = Attempt_secondary" "triesLeft (diners s ! j) = 0"
    "forkLeft' (diners s ! j) = j" "forkRight' (diners s ! j) = (j + 1) mod 5" "f = j"
    by auto
  then show ?thesis using held by (simp add: in_fallback_def)
qed

lemma fallback_next:
  assumes inv: "table_inv s"
    and stuck: "\<forall>j<5. pc (diners s ! j) = Returned \<or> blocked s j"
    and i: "i < 5" and fb: "in_fallback s i"
  shows "in_fallback s ((i + 1) mod 5)"
proof -
  note d = table_invD [OF inv]
  let ?n = "(i + 1) mod 5"
  have n: "?n < 5" by simp
  have "pc (diners s ! i) \<noteq> Returned" using fb by (simp add: in_fallback_def)
  with stuck i have b: "blocked s i" by blast
  have "call_of (diners s ! i) = Some (Mutex_lock ?n)"
    using fb by (simp add: in_fallback_def call_of_def)
  with b have "forks s ! ?n \<noteq> None"
    using d(1) by (simp add: blocked_def)
  then obtain j where "forks s ! ?n = Some j" by blast
  from holder_in_fallback [OF inv stuck n this] show ?thesis by simp
qed

lemma fallback_around:
  assumes inv: "table_inv s"
    and stuck: "\<forall>j<5. pc (diners s ! j) = Returned \<or> blocked s j"
    and i: "i < 5" and fb: "in_fallback s i"
  shows "in_fallback s ((i + k) mod 5)"
proof (induction k)
  case 0
  then show ?case using i fb by simp
next
  case (Suc k)
  have "in_fallback s (((i + k) mod 5 + 1) mod 5)"
    using inv stuck _ Suc.IH by (rule fallback_next) simp
  then show ?case by (simp add: mod_Suc_eq)
qed

lemma all_in_fallback:
  assumes inv: "table_inv s"
    and stuck: "\<forall>j<5. pc (diners s ! j) = Returned \<or> blocked s j"
    and i: "i < 5" and fb: "in_fallback s i" and j: "j < 5"
  shows "in_fallback s j"
proof -
  have "(i + (j + 5 - i)) mod 5 = j" using i j by simp
  with fallback_around [OF inv stuck i fb, of "j + 5 - i"] show ?thesis by simp
qed

lemma upt_5: "[0..<5] = [0, 1, 2, 3, 4]"
  by code_simp

lemma fallback_circular:
  assumes len: "length (forks s) = 5" "length (diners s) = 5"
    and fb: "\<forall>i<5. in_fallback s i"
  shows "circular_wait s"
proof -
  have f: "forks s ! 0 = Some 0" "forks s ! 1 = Some 1" "forks s ! 2 = Some 2"
    "forks s ! 3 = Some 3" "forks s ! 4 = Some 4"
    using fb by (simp_all add: in_fallback_def)
  have h: "length (holding s i) = 1" if "i < 5" for i
    using that f unfolding below_5
    by (elim disjE) (simp_all add: holding_def len upt_5)
  have b: "blocked s i" if "i < 5" for i
  proof -
    have "call_of (diners s ! i) = Some (Mutex_lock ((i + 1) mod 5))"
      using fb that by (simp add: in_fallback_def call_of_def)
    moreover have "forks s ! ((i + 1) mod 5) = Some ((i + 1) mod 5)"
      using fb by (simp add: in_fallback_def)
    ultimately show ?thesis by (simp add: blocked_def)
  qed
  show ?thesis
    unfolding circular_wait_def len upt_5 using h b by simp
qed

text \<open>The circular wait lasts: no philosopher can move, and the signal does not help.\<close>

lemma circular_wait_step:
  assumes "circular_wait s" and "step s mv = Some s'"
  shows "s' = TerminationHandler s \<and> circular_wait s'"
proof (cases mv)
  case SIGTERM
  then have "s' = TerminationHandler s" using assms(2) by (simp add: step_def)
  moreover have "blocked (TerminationHandler s) i = blocked s i" for i
    by (simp add: blocked_def TerminationHandler_def split: option.splits call.splits)
  then have "circular_wait (TerminationHandler s) = circular_wait s"
    by (simp add: circular_wait_def holding_def) (simp add: TerminationHandler_def)
  ultimately show ?thesis using assms(1) by simp
next
  case (Step i r)
  then have "i < length (diners s)" using assms(2) by (simp add: step_def split: if_splits)
  then have "blocked s i" using assms(1) by (simp add: circular_wait_def list_all_iff)
  then have "step s (Step i r) = None" by (rule blocked_no_step)
  with Step assms(2) show ?thesis by simp
qed

lemma circular_wait_forever:
  "circular_wait s \<Longrightarrow> steps s mvs = Some s' \<Longrightarrow> circular_wait s'"
proof (induction mvs arbitrary: s)
  case Nil
  then show ?case by simp
next
  case (Cons mv mvs)
  from Cons.prems(2) obtain s1 where s1: "step s mv = Some s1" and r: "steps s1 mvs = Some s'"
    by (cases "step s mv") simp_all
  from circular_wait_step [OF Cons.prems(1) s1] have "circular_wait s1" by blast
  then show ?case using r by (rule Cons.IH)
qed

lemma steps_reachable: "reachable s \<Longrightarrow> steps s mvs = Some s' \<Longrightarrow> reachable s'"
proof (induction mvs arbitrary: s)
  case Nil
  then show ?case by simp
next
  case (Cons mv mvs)
  from Cons.prems(2) obtain s1 where s1: "step s mv = Some s1" and r: "steps s1 mvs = Some s'"
    by (cases "step s mv") simp_all
  have "reachable s1" using Cons.prems(1) s1 by (rule reachable.move)
  then show ?case using r by (rule Cons.IH)
qed


text \<open>
  In a reachable state of the five philosophers in which none of them can make its next
  call, either all five have returned, or the state is the circular wait and all five sit
  in the final blocking acquire of line 68: each has used up both probes
  (\<open>triesLeft = 0\<close>), holds its left mutex and waits for its right one.
\<close>

lemma stuck_only_in_fallback:
  assumes "reachable s" and "\<forall>i<5. \<forall>r. step s (Step i r) = None"
  shows "(\<forall>i<5. pc (diners s ! i) = Returned) \<or>
         (circular_wait s \<and> (\<forall>i<5. in_fallback s i))"
proof -
  have inv: "table_inv s" using assms(1) by (rule reachable_inv)
  note d = table_invD [OF inv]
  have stuck: "\<forall>j<5. pc (diners s ! j) = Returned \<or> blocked s j"
    using assms(2) stuck_diner [of _ s 0] d(2) by simp
  show ?thesis
  proof (cases "\<forall>i<5. pc (diners s ! i) = Returned")
    case True
    then show ?thesis by simp
  next
    case False
    then obtain i where i: "i < 5" and "pc (diners s ! i) \<noteq> Returned" by blast
    with stuck have b: "blocked s i" by blast
    then obtain f where f: "call_of (diners s ! i) = Some (Mutex_lock f)"
      by (auto simp: blocked_def split: option.splits call.splits)
    have f5: "f < 5" using blocked_where [OF d(3) [OF i] i f] by simp
    with b f have "forks s ! f \<noteq> None" using d(1) by (simp add: blocked_def)
    then obtain j where "forks s ! f = Some j" by blast
    from holder_in_fallback [OF inv stuck f5 this] have "in_fallback s f" by simp
    then have a: "\<forall>j<5. in_fallback s j"
      using all_in_fallback [OF inv stuck f5] by blast
    then have "circular_wait s" using d(1,2) by (intro fallback_circular)
    with a show ?thesis by simp
  qed
qed

text \<open>
  From the circular wait the only moves are arrivals of the signal, and they change the
  flag and nothing else.
\<close>

lemma handler_twice: "TerminationHandler (TerminationHandler s) = TerminationHandler s"
  by (simp add: TerminationHandler_def)

lemma circular_wait_steps:
  "circular_wait s \<Longrightarrow>
   steps s mvs =
     (if list_all (\<lambda>mv. mv = SIGTERM) mvs
      then Some (if mvs = [] then s else TerminationHandler s) else None)"
proof (induction mvs arbitrary: s)
  case Nil
  then show ?case by simp
next
  case (Cons mv mvs)
  show ?case
  proof (cases mv)
    case SIGTERM
    have st: "step s SIGTERM = Some (TerminationHandler s)" by (simp add: step_def)
    from circular_wait_step [OF Cons.prems st]
    have "circular_wait (TerminationHandler s)" by simp
    from Cons.IH [OF this] show ?thesis
      using SIGTERM st by (simp add: handler_twice)
  next
    case (Step i r)
    have "step s (Step i r) = None"
    proof (cases "i < length (diners s)")
      case True
      then have "blocked s i" using Cons.prems by (simp add: circular_wait_def list_all_iff)
      then show ?thesis by (rule blocked_no_step)
    next
      case False
      then show ?thesis by (simp add: step_def)
    qed
    then show ?thesis using Step by simp
  qed
qed


text \<open>
  C2. The code does not keep the claim. Started by \<open>main\<close> and moving in lockstep, every
  philosopher locks its left mutex, finds its right one locked, puts the left one back,
  does the same from the right, and then, out of probes, locks its left mutex and waits
  in the blocking acquire of its right one (line 68). After these 21 calls each, every
  philosopher holds exactly one mutex and is blocked on the mutex its neighbour holds;
  nobody has eaten. From there no philosopher ever makes another call: the only runs of the
  system are arrivals of the signal, which set the flag that nobody reads any more.
\<close>

theorem circular_wait_reached:
  "steps table_start lockstep = Some all_waiting \<and>
   reachable all_waiting \<and>
   circular_wait all_waiting \<and>
   map (\<lambda>t. platesCounter (phil t)) (diners all_waiting) = [0, 0, 0, 0, 0] \<and>
   steps all_waiting mvs =
     (if list_all (\<lambda>mv. mv = SIGTERM) mvs
      then Some (if mvs = [] then all_waiting else TerminationHandler all_waiting)
      else None)"
proof -
  have s: "steps table_start lockstep = Some all_waiting"
    by code_simp
  have r: "reachable all_waiting"
    using reachable.start s by (rule steps_reachable)
  have c: "circular_wait all_waiting"
    by code_simp
  have p: "map (\<lambda>t. platesCounter (phil t)) (diners all_waiting) = [0, 0, 0, 0, 0]"
    by code_simp
  show ?thesis
    using s r c p circular_wait_steps [OF c, of mvs] by simp
qed

end
